theory Spec2Isabelle
  imports Complex_Main "HOL-Library.Sublist" "HOL-Library.Log_Nat" "HOL-Library.Multiset"
begin

section \<open>JavaScript values used by the completion and history engine\<close>

text \<open>
  Strings are lists of characters, a character being a code unit below 256 (the Latin-1
  range of UTF-16). On this range \<open>toLowerCase\<close> maps \<open>A\<close>..\<open>Z\<close> and the letters
  \<open>U+00C0\<close>..\<open>U+00DE\<close> other than the multiplication sign \<open>U+00D7\<close> to the code unit
  32 above and leaves every other character unchanged, and \<open>trim\<close> strips
  \<open>U+0009\<close>..\<open>U+000D\<close>, the space and the no-break space \<open>U+00A0\<close>.
\<close>

definition lower_char :: "char \<Rightarrow> char" where
  "lower_char c =
     (let n = (of_char c :: nat)
      in if (65 \<le> n \<and> n \<le> 90) \<or> (192 \<le> n \<and> n \<le> 222 \<and> n \<noteq> 215)
         then char_of (n + 32) else c)"

definition toLowerCase :: "string \<Rightarrow> string" where
  "toLowerCase s = map lower_char s"

text \<open>\<open>t.includes(q)\<close> and \<open>t.indexOf(q)\<close> (the latter only called when \<open>q\<close> occurs).\<close>

fun includes_str :: "string \<Rightarrow> string \<Rightarrow> bool" where
  "includes_str [] q = (q = [])"
| "includes_str (c # cs) q = (prefix q (c # cs) \<or> includes_str cs q)"

fun indexOf :: "string \<Rightarrow> string \<Rightarrow> nat" where
  "indexOf [] q = 0"
| "indexOf (c # cs) q = (if prefix q (c # cs) then 0 else Suc (indexOf cs q))"

text \<open>
  \<open>Array.prototype.slice(start, end)\<close> for integer arguments: a negative index counts
  from the end, both indices are clamped to the array.
\<close>

definition js_slice :: "int \<Rightarrow> int \<Rightarrow> 'a list \<Rightarrow> 'a list" where
  "js_slice start end xs =
     (let len = int (length xs);
          k = (if start < 0 then max (len + start) 0 else min start len);
          final = (if end < 0 then max (len + end) 0 else min end len)
      in take (nat (max (final - k) 0)) (drop (nat k) xs))"

text \<open>
  \<open>Array.prototype.sort(compare)\<close> is a stable sort: elements that the comparator
  reports as equal (result \<open>0\<close>) keep their order, an element moves before another only
  when the comparator says so. \<open>js_sort\<close> is the stable insertion sort. It is the
  result of the engine's sort where the comparator is a consistent order on the elements
  of the array (there every stable sort returns the same list). For a comparator that is
  not consistent on the array the language leaves the order to the engine, and \<open>js_sort\<close>
  does not describe it: nothing below is stated for such an input.
\<close>

fun js_insert :: "('a \<Rightarrow> 'a \<Rightarrow> 'n::{zero,linorder}) \<Rightarrow> 'a \<Rightarrow> 'a list \<Rightarrow> 'a list" where
  "js_insert cmp x [] = [x]"
| "js_insert cmp x (y # ys) = (if cmp x y \<le> 0 then x # y # ys else y # js_insert cmp x ys)"

fun js_sort :: "('a \<Rightarrow> 'a \<Rightarrow> 'n::{zero,linorder}) \<Rightarrow> 'a list \<Rightarrow> 'a list" where
  "js_sort cmp [] = []"
| "js_sort cmp (x # xs) = js_insert cmp x (js_sort cmp xs)"

text \<open>
  Numbers. A JavaScript number is an IEEE 754 double; it is represented by the rational
  it denotes, and every arithmetic result and decimal literal is rounded by \<open>double\<close>:
  to the nearest number with a 53-bit significand, a tie going to the even significand.
  \<open>ilog2 x\<close> is the exponent \<open>k\<close> with \<open>2^k \<le> x < 2^(k+1)\<close> of a positive \<open>x\<close>. The
  exponent range of a double (overflow, subnormal numbers) is not modelled: the numbers
  of this program are string lengths, scores and their quotients, far inside it. The
  length of a string is an integer below \<open>2^53\<close>, so a length and the difference of two
  lengths are exact and are written without rounding.
\<close>

definition ilog2 :: "rat \<Rightarrow> int" where
  "ilog2 x =
     (case quotient_of x of
        (p, q) \<Rightarrow> (let k = bitlen p - bitlen q in if 2 powi k \<le> x then k else k - 1))"

definition round_even :: "rat \<Rightarrow> int" where
  "round_even x =
     (let f = \<lfloor>x\<rfloor>; d = x - of_int f
      in if d < 1 / 2 then f else if 1 / 2 < d then f + 1 else if even f then f else f + 1)"

definition double :: "rat \<Rightarrow> rat" where
  "double x =
     (if x = 0 then 0
      else (let e = ilog2 \<bar>x\<bar> - 52 in of_int (round_even (x / 2 powi e)) * 2 powi e))"


section \<open>Fuzzy ranker: \<open>JSFuzzySearcher\<close>\<close>

record score_result =
  score :: rat
  matches :: "(nat \<times> nat) list"

definition is_boundary :: "char \<Rightarrow> bool" where
  "is_boundary c = (c = CHR '' '' \<or> c = CHR ''_'' \<or> c = CHR ''-'')"

text \<open>
  The \<open>while\<close> loop of \<open>calculateScore\<close>. \<open>matchStart\<close> is \<open>None\<close> where the source
  holds \<open>-1\<close>. The loop returns the variables that are read after it. \<open>score += e\<close>
  is the rounded sum of \<open>score\<close> and the rounded value of \<open>e\<close>.
\<close>

function fuzzy_loop ::
  "string \<Rightarrow> string \<Rightarrow> rat \<Rightarrow> (nat \<times> nat) list \<Rightarrow> nat \<Rightarrow> nat \<Rightarrow> nat option \<Rightarrow> nat
     \<Rightarrow> rat \<times> (nat \<times> nat) list \<times> nat \<times> nat \<times> nat option" where
  "fuzzy_loop q t sc ms queryIndex targetIndex matchStart consecutiveMatches =
     (if queryIndex < length q \<and> targetIndex < length t then
        (if q ! queryIndex = t ! targetIndex then
           fuzzy_loop q t
             (let sc1 = double (sc + double (1 + double (of_nat (consecutiveMatches + 1) * (1 / 2))))
              in if targetIndex = 0 \<or> is_boundary (t ! (targetIndex - 1))
                 then double (sc1 + 2) else sc1)
             ms (queryIndex + 1) (targetIndex + 1)
             (if matchStart = None then Some targetIndex else matchStart)
             (consecutiveMatches + 1)
         else
           fuzzy_loop q t sc
             (case matchStart of None \<Rightarrow> ms | Some m \<Rightarrow> ms @ [(m, targetIndex)])
             queryIndex (targetIndex + 1) None 0)
      else (sc, ms, queryIndex, targetIndex, matchStart))"
  by pat_completeness auto
termination
  by (relation "measure (\<lambda>(q, t, sc, ms, qi, ti, m, c). length t - ti)") auto

definition calculateScore :: "string \<Rightarrow> string \<Rightarrow> bool \<Rightarrow> score_result" where
  "calculateScore query target caseInsensitive =
     (let q = (if caseInsensitive then toLowerCase query else query);
          t = (if caseInsensitive then toLowerCase target else target)
      in if q = t then \<lparr>score = 1, matches = [(0, length target)]\<rparr>
         else if prefix q t then \<lparr>score = double (9 / 10), matches = [(0, length q)]\<rparr>
         else if includes_str t q then
           (let index = indexOf t q
            in \<lparr>score = double (8 / 10), matches = [(index, index + length q)]\<rparr>)
         else
           (case fuzzy_loop q t 0 [] 0 0 None 0 of
              (sc, ms, queryIndex, targetIndex, matchStart) \<Rightarrow>
                let ms' = (case matchStart of None \<Rightarrow> ms | Some m \<Rightarrow> ms @ [(m, targetIndex)])
                in if queryIndex < length q then \<lparr>score = 0, matches = []\<rparr>
                   else
                     (let maxScore = double (of_nat (length q) * 3);
                          normalizedScore = min (double (sc / maxScore)) 1;
                          lengthPenalty =
                            double (1 - double (double ((of_nat (length t) - of_nat (length q))
                                                         / of_nat (length t))
                                                 * double (2 / 10)))
                      in \<lparr>score = double (normalizedScore * lengthPenalty),
                          matches = ms'\<rparr>)))"


text \<open>
  \<open>JSFuzzySearcher.search\<close>. The method calls \<open>this.calculateScore\<close>, which a
  subclass overrides, so the scorer is an argument; \<open>target_of\<close> reads the property
  named by \<open>key\<close> (or \<open>toString()\<close> of a plain item). An empty query returns the first
  \<open>limit\<close> items with score \<open>1.0\<close>.
\<close>

record 'a search_result =
  result_item :: 'a
  result_score :: rat
  result_matches :: "(nat \<times> nat) list"

definition search_with ::
  "(string \<Rightarrow> string \<Rightarrow> bool \<Rightarrow> score_result) \<Rightarrow> ('a \<Rightarrow> string) \<Rightarrow> 'a list \<Rightarrow> string
     \<Rightarrow> int \<Rightarrow> rat \<Rightarrow> bool \<Rightarrow> 'a search_result list" where
  "search_with scorer target_of items query limit threshold caseInsensitive =
     (if query = [] then
        map (\<lambda>i. \<lparr>result_item = i, result_score = 1, result_matches = []\<rparr>) (js_slice 0 limit items)
      else
        (let results =
               map (\<lambda>i. let r = scorer query (target_of i) caseInsensitive
                        in \<lparr>result_item = i, result_score = score r, result_matches = matches r\<rparr>)
                   (filter (\<lambda>i. score (scorer query (target_of i) caseInsensitive) \<ge> threshold)
                      items)
         in js_slice 0 limit
              (js_sort (\<lambda>a b. double (result_score b - result_score a)) results)))"

definition JSFuzzySearcher_search ::
  "('a \<Rightarrow> string) \<Rightarrow> 'a list \<Rightarrow> string \<Rightarrow> int \<Rightarrow> rat \<Rightarrow> bool \<Rightarrow> 'a search_result list" where
  "JSFuzzySearcher_search = search_with calculateScore"


section \<open>Tokenizer: \<open>BaseCompletionBackend.tokenize\<close>\<close>

record tok_state =
  words :: "string list"
  current :: string
  inQuote :: "char option"
  escaped :: bool

definition tok_init :: tok_state where
  "tok_init = \<lparr>words = [], current = [], inQuote = None, escaped = False\<rparr>"

text \<open>One iteration of the \<open>for\<close> loop, on the character \<open>c\<close>.\<close>

definition tokenize_step :: "tok_state \<Rightarrow> char \<Rightarrow> tok_state" where
  "tokenize_step s c =
     (if escaped s then s\<lparr>current := current s @ [c], escaped := False\<rparr>
      else if c = CHR 0x5C then s\<lparr>escaped := True, current := current s @ [c]\<rparr>
      else
        (case inQuote s of
           Some q \<Rightarrow>
             (if c = q then s\<lparr>inQuote := None, current := current s @ [c]\<rparr>
              else s\<lparr>current := current s @ [c]\<rparr>)
         | None \<Rightarrow>
             (if c = CHR 0x22 \<or> c = CHR 0x27 then
                s\<lparr>inQuote := Some c, current := current s @ [c]\<rparr>
              else if c = CHR '' '' \<or> c = CHR 0x09 then
                (if current s \<noteq> [] then s\<lparr>words := words s @ [current s], current := []\<rparr>
                 else s)
              else s\<lparr>current := current s @ [c]\<rparr>)))"

definition tokenize_scan :: "tok_state \<Rightarrow> string \<Rightarrow> tok_state" where
  "tokenize_scan s line = foldl tokenize_step s line"

definition endsWith_space :: "string \<Rightarrow> bool" where
  "endsWith_space line = (line \<noteq> [] \<and> last line = CHR '' '')"

definition tokenize :: "string \<Rightarrow> string list" where
  "tokenize line =
     (let s = tokenize_scan tok_init line
      in if current s \<noteq> [] \<or> endsWith_space line then words s @ [current s] else words s)"


section \<open>Configuration and host\<close>

text \<open>
  The configuration snapshot: a field is \<open>None\<close> where the property is absent
  (\<open>undefined\<close>). \<open>a || d\<close> takes the default \<open>d\<close> for an absent, zero or empty value.
\<close>

record config =
  history_mode :: "string option"
  history_file :: "string option"
  history_max_entries :: "int option"
  history_save_corrections :: "bool option"
  history_search_max_results :: "int option"
  history_search_deduplicate :: "bool option"
  max_results :: "int option"
  shell_default :: "string option"
  completion_enabled :: "bool option"
  completion_history_suggestions :: "bool option"
  completion_fuzzy_search :: "bool option"
  completion_max_suggestions :: "int option"
  completion_cache_ttl :: "int option"

definition or_int :: "int option \<Rightarrow> int \<Rightarrow> int" where
  "or_int v d = (case v of None \<Rightarrow> d | Some n \<Rightarrow> if n = 0 then d else n)"

definition or_str :: "string option \<Rightarrow> string \<Rightarrow> string" where
  "or_str v d = (case v of None \<Rightarrow> d | Some s \<Rightarrow> if s = [] then d else s)"


section \<open>History entries and providers\<close>

record add_metadata =
  md_exitCode :: "int option"
  md_cwd :: "string option"
  md_duration :: "int option"
  md_isCorrection :: bool

record entry_metadata =
  spread :: "add_metadata option"
  source :: "string option"

record history_entry =
  command :: string
  timestamp :: "int option"
  exitCode :: "int option"
  cwd :: "string option"
  duration :: "int option"
  metadata :: entry_metadata

datatype provider_kind = Aish | Bash | Zsh | Fish

text \<open>
  What the providers take from outside: the file system is a map from paths to contents;
  the line parsers of the four formats and the JSON rendering of an entry are parameters
  (\<open>parse_history\<close>, \<open>render_history\<close>), as are the default history file of each shell,
  \<open>~\<close> expansion, \<open>$SHELL\<close>, \<open>process.cwd()\<close> and whether \<open>mkdir\<close> and \<open>writeFile\<close>
  succeed.
\<close>

type_synonym filesystem = "string \<rightharpoonup> string"

record host =
  parse_history :: "provider_kind \<Rightarrow> string \<Rightarrow> history_entry list"
  render_history :: "history_entry list \<Rightarrow> string"
  default_file :: "provider_kind \<Rightarrow> string"
  expandPath :: "string \<Rightarrow> string"
  env_SHELL :: "string option"
  process_cwd :: string
  mkdir_ok :: "string \<Rightarrow> bool"
  write_ok :: "string \<Rightarrow> bool"

record provider =
  kind :: provider_kind
  historyFile :: string
  maxResults :: int
  history :: "history_entry list"
  loaded :: bool
  deduplicatedHistory :: "history_entry list"
  maxEntries :: int
  saveCorrections :: bool
  saveDebounceTimer :: bool

text \<open>
  The constructors. \<open>deduplicatedHistory\<close> is a field of the Zsh provider only;
  \<open>maxEntries\<close>, \<open>saveCorrections\<close> and \<open>saveDebounceTimer\<close> (\<open>True\<close> while a save is
  scheduled) are fields of the owned (aish) provider only.
\<close>

definition new_provider :: "host \<Rightarrow> config \<Rightarrow> provider_kind \<Rightarrow> provider" where
  "new_provider h cfg k =
     \<lparr>kind = k,
      historyFile =
        (if k = Aish then expandPath h (or_str (history_file cfg) (default_file h Aish))
         else default_file h k),
      maxResults = or_int (max_results cfg) 50,
      history = [],
      loaded = False,
      deduplicatedHistory = [],
      maxEntries = or_int (history_max_entries cfg) 10000,
      saveCorrections = (history_save_corrections cfg \<noteq> Some False),
      saveDebounceTimer = False\<rparr>"

text \<open>A timestamp is used by a comparator only when it is truthy: present and not \<open>0\<close>.\<close>

definition truthy_ts :: "int option \<Rightarrow> bool" where
  "truthy_ts t = (case t of None \<Rightarrow> False | Some n \<Rightarrow> n \<noteq> 0)"

definition is_js_space :: "char \<Rightarrow> bool" where
  "is_js_space c = (c = CHR '' '' \<or> c = CHR 0x09 \<or> c = CHR 0x0A \<or> c = CHR 0x0B
                     \<or> c = CHR 0x0C \<or> c = CHR 0x0D \<or> c = CHR 0xA0)"

definition js_trim :: "string \<Rightarrow> string" where
  "js_trim s = rev (dropWhile is_js_space (rev (dropWhile is_js_space s)))"

text \<open>\<open>ZshHistoryProvider.deduplicateHistory\<close>: newest to oldest, \<open>unshift\<close> the unseen.\<close>

fun zsh_dedup_loop ::
  "history_entry list \<Rightarrow> string set \<Rightarrow> history_entry list \<Rightarrow> history_entry list" where
  "zsh_dedup_loop [] seen deduplicated = deduplicated"
| "zsh_dedup_loop (item # older) seen deduplicated =
     (if js_trim (command item) \<notin> seen
      then zsh_dedup_loop older (insert (js_trim (command item)) seen) (item # deduplicated)
      else zsh_dedup_loop older seen deduplicated)"

definition deduplicateHistory :: "provider \<Rightarrow> provider" where
  "deduplicateHistory p = p\<lparr>deduplicatedHistory := zsh_dedup_loop (rev (history p)) {} []\<rparr>"

definition trim_to_max :: "int \<Rightarrow> history_entry list \<Rightarrow> history_entry list" where
  "trim_to_max n hist =
     (if int (length hist) > n then js_slice (- n) (int (length hist)) hist else hist)"

text \<open>
  \<open>loadHistory(forceReload)\<close> of the four providers. Reading a missing file is the
  \<open>catch\<close> branch: the history becomes empty and the provider counts as loaded.
\<close>

definition loadHistory :: "host \<Rightarrow> filesystem \<Rightarrow> bool \<Rightarrow> provider \<Rightarrow> provider" where
  "loadHistory h fs forceReload p =
     (if loaded p \<and> \<not> (forceReload \<and> (kind p = Bash \<or> kind p = Zsh)) then p
      else
        (case fs (historyFile p) of
           None \<Rightarrow> p\<lparr>history := [], deduplicatedHistory := [], loaded := True\<rparr>
         | Some content \<Rightarrow>
             (case kind p of
                Aish \<Rightarrow>
                  p\<lparr>history := trim_to_max (maxEntries p) (parse_history h Aish content),
                    loaded := True\<rparr>
              | Bash \<Rightarrow> p\<lparr>history := parse_history h Bash content, loaded := True\<rparr>
              | Zsh \<Rightarrow>
                  (deduplicateHistory (p\<lparr>history := parse_history h Zsh content\<rparr>))
                    \<lparr>loaded := True\<rparr>
              | Fish \<Rightarrow>
                  p\<lparr>history :=
                      js_sort (\<lambda>a b. if truthy_ts (timestamp a) \<and> truthy_ts (timestamp b)
                                      then the (timestamp a) - the (timestamp b) else 0)
                        (parse_history h Fish content),
                    loaded := True\<rparr>)))"

text \<open>
  The second argument of a provider's \<open>search\<close>: nothing, a number, or the object
  \<open>{limit, deduplicate}\<close>. \<open>toNumber\<close> is the numeric conversion applied by unary minus
  and by \<open><\<close>; it is \<open>NaN\<close> (\<open>None\<close>) for an object. \<open>slice(NaN)\<close> is \<open>slice(0)\<close>, and
  a comparison with \<open>NaN\<close> is false.
\<close>

datatype search_arg = Undefined | Number int | Options "int option" "bool option"

fun toNumber :: "search_arg \<Rightarrow> int option" where
  "toNumber Undefined = None"
| "toNumber (Number n) = Some n"
| "toNumber (Options l d) = None"

definition param_limit :: "int \<Rightarrow> search_arg \<Rightarrow> search_arg" where
  "param_limit dflt a = (if a = Undefined then Number dflt else a)"

definition slice_last :: "search_arg \<Rightarrow> 'a list \<Rightarrow> 'a list" where
  "slice_last limit xs =
     (case toNumber limit of
        None \<Rightarrow> js_slice 0 (int (length xs)) xs
      | Some n \<Rightarrow> js_slice (- n) (int (length xs)) xs)"

definition length_lt :: "nat \<Rightarrow> search_arg \<Rightarrow> bool" where
  "length_lt n limit = (case toNumber limit of None \<Rightarrow> False | Some m \<Rightarrow> int n < m)"

text \<open>
  The search loops run from the newest entry to the oldest: the list argument is the
  history reversed. The owned provider's loop also skips command texts already taken.
\<close>

fun search_loop ::
  "search_arg \<Rightarrow> string \<Rightarrow> history_entry list \<Rightarrow> history_entry list \<Rightarrow> history_entry list" where
  "search_loop limit lowerQuery [] results = results"
| "search_loop limit lowerQuery (item # older) results =
     (if \<not> length_lt (length results) limit then results
      else if includes_str (toLowerCase (command item)) lowerQuery
      then search_loop limit lowerQuery older (results @ [item])
      else search_loop limit lowerQuery older results)"

fun aish_search_loop ::
  "search_arg \<Rightarrow> string \<Rightarrow> history_entry list \<Rightarrow> history_entry list \<Rightarrow> string set
     \<Rightarrow> history_entry list" where
  "aish_search_loop limit lowerQuery [] results seen = results"
| "aish_search_loop limit lowerQuery (item # older) results seen =
     (if \<not> length_lt (length results) limit then results
      else if command item \<in> seen then aish_search_loop limit lowerQuery older results seen
      else if includes_str (toLowerCase (command item)) lowerQuery
      then aish_search_loop limit lowerQuery older (results @ [item])
             (insert (command item) seen)
      else aish_search_loop limit lowerQuery older results seen)"

text \<open>
  \<open>search(query, limit = this.maxResults)\<close> of the Bash, Fish and owned providers, on the
  loaded history, and \<open>search(query, options = {})\<close> of the Zsh provider.
\<close>

definition simple_search :: "provider \<Rightarrow> string \<Rightarrow> search_arg \<Rightarrow> history_entry list" where
  "simple_search p query arg =
     (let limit = param_limit (maxResults p) arg
      in if query = [] then rev (slice_last limit (history p))
         else search_loop limit (toLowerCase query) (rev (history p)) [])"

definition aish_search :: "provider \<Rightarrow> string \<Rightarrow> search_arg \<Rightarrow> history_entry list" where
  "aish_search p query arg =
     (let limit = param_limit (maxResults p) arg
      in if query = [] then rev (slice_last limit (history p))
         else aish_search_loop limit (toLowerCase query) (rev (history p)) [] {})"

definition zsh_search :: "provider \<Rightarrow> string \<Rightarrow> search_arg \<Rightarrow> history_entry list" where
  "zsh_search p query arg =
     (let deduplicate = (case arg of Options l (Some d) \<Rightarrow> d | _ \<Rightarrow> True);
          limit = Number (case arg of Options (Some l) d \<Rightarrow> l | _ \<Rightarrow> maxResults p);
          searchArray = (if deduplicate then deduplicatedHistory p else history p)
      in if query = [] then rev (slice_last limit searchArray)
         else search_loop limit (toLowerCase query) (rev searchArray) [])"

definition provider_search ::
  "host \<Rightarrow> filesystem \<Rightarrow> provider \<Rightarrow> string \<Rightarrow> search_arg \<Rightarrow> history_entry list \<times> provider" where
  "provider_search h fs p query arg =
     (case kind p of
        Aish \<Rightarrow> (let p' = loadHistory h fs False p in (aish_search p' query arg, p'))
      | Bash \<Rightarrow> (let p' = loadHistory h fs True p in (simple_search p' query arg, p'))
      | Zsh \<Rightarrow> (let p' = loadHistory h fs True p in (zsh_search p' query arg, p'))
      | Fish \<Rightarrow> (let p' = loadHistory h fs False p in (simple_search p' query arg, p')))"

text \<open>
  \<open>AishHistoryProvider.add\<close> at clock reading \<open>now\<close>; \<open>debouncedSave\<close> only schedules
  the write. \<open>saveHistory\<close> is what the timer runs, followed by clearing the timer.
\<close>

definition aish_add ::
  "host \<Rightarrow> filesystem \<Rightarrow> int \<Rightarrow> provider \<Rightarrow> string \<Rightarrow> add_metadata \<Rightarrow> provider" where
  "aish_add h fs now p0 cmd md =
     (let p = loadHistory h fs False p0
      in if history p \<noteq> [] \<and> command (last (history p)) = cmd then p
         else if \<not> saveCorrections p \<and> md_isCorrection md then p
         else
           p\<lparr>history := history p @
                [\<lparr>command = cmd, timestamp = Some now, exitCode = md_exitCode md,
                  cwd = Some (or_str (md_cwd md) (process_cwd h)), duration = md_duration md,
                  metadata = \<lparr>spread = Some md, source = Some ''aish''\<rparr>\<rparr>],
             saveDebounceTimer := True\<rparr>)"

definition saveHistory :: "host \<Rightarrow> provider \<Rightarrow> filesystem \<Rightarrow> provider \<times> filesystem" where
  "saveHistory h p fs =
     (if \<not> mkdir_ok h (historyFile p) then (p, fs)
      else
        (let p' = p\<lparr>history := trim_to_max (maxEntries p) (history p)\<rparr>
         in if write_ok h (historyFile p) then
              (p', fs(historyFile p \<mapsto> render_history h (history p')))
            else (p', fs)))"

definition save_timer_fires :: "host \<Rightarrow> provider \<Rightarrow> filesystem \<Rightarrow> provider \<times> filesystem" where
  "save_timer_fires h p fs =
     (if saveDebounceTimer p then
        (case saveHistory h p fs of (p', fs') \<Rightarrow> (p'\<lparr>saveDebounceTimer := False\<rparr>, fs'))
      else (p, fs))"


section \<open>History manager\<close>

record history_manager =
  mode :: string
  providers :: "(string \<times> provider) list"
  currentShell :: "string option"
  initialized :: bool

definition new_manager :: "config \<Rightarrow> history_manager" where
  "new_manager cfg =
     \<lparr>mode = or_str (history_mode cfg) ''aish'', providers = [], currentShell = None,
      initialized = False\<rparr>"

text \<open>\<open>Map.set\<close> and \<open>Map.get\<close> on the insertion-ordered provider map.\<close>

fun map_set :: "string \<Rightarrow> 'v \<Rightarrow> (string \<times> 'v) list \<Rightarrow> (string \<times> 'v) list" where
  "map_set k v [] = [(k, v)]"
| "map_set k v ((k', v') # rest) =
     (if k' = k then (k, v) # rest else (k', v') # map_set k v rest)"

definition last_segment :: "string \<Rightarrow> string" where
  "last_segment path = rev (takeWhile (\<lambda>c. c \<noteq> CHR ''/'') (rev path))"

definition detectAndInitializeShellHistory ::
  "host \<Rightarrow> filesystem \<Rightarrow> config \<Rightarrow> history_manager \<Rightarrow> history_manager" where
  "detectAndInitializeShellHistory h fs cfg m =
     (let shellPath = or_str (shell_default cfg) (or_str (env_SHELL h) ''/bin/bash'');
          shellName = last_segment shellPath;
          detected =
            (if includes_str shellName ''zsh'' then Some (''zsh'', Zsh)
             else if includes_str shellName ''fish'' then Some (''fish'', Fish)
             else if includes_str shellName ''bash'' \<or> includes_str shellName ''sh''
             then Some (''bash'', Bash)
             else None)
      in case detected of
           None \<Rightarrow> m
         | Some (name, k) \<Rightarrow>
             (let p = new_provider h cfg k;
                  m' = m\<lparr>currentShell := Some name\<rparr>
              in if fs (historyFile p) \<noteq> None
                 then m'\<lparr>providers := map_set name p (providers m')\<rparr>
                 else m'))"

definition initialize ::
  "host \<Rightarrow> filesystem \<Rightarrow> config \<Rightarrow> history_manager \<Rightarrow> history_manager" where
  "initialize h fs cfg m =
     (if initialized m then m
      else
        (let m1 = m\<lparr>providers := map_set ''aish'' (new_provider h cfg Aish) (providers m)\<rparr>;
             m2 = (if mode m1 \<noteq> ''aish'' then detectAndInitializeShellHistory h fs cfg m1
                   else m1)
         in m2\<lparr>initialized := True\<rparr>))"

text \<open>
  \<open>mergeResults\<close>: flatten, sort with the comparator that orders two entries only when
  both timestamps are truthy, then the loop that skips seen command texts and stops as
  soon as \<open>merged.length >= limit\<close> after a push.
\<close>

definition merge_compare :: "history_entry \<Rightarrow> history_entry \<Rightarrow> int" where
  "merge_compare a b =
     (if truthy_ts (timestamp a) \<and> truthy_ts (timestamp b)
      then the (timestamp b) - the (timestamp a) else 0)"

fun merge_loop ::
  "bool \<Rightarrow> int \<Rightarrow> history_entry list \<Rightarrow> history_entry list \<Rightarrow> string set
     \<Rightarrow> history_entry list" where
  "merge_loop deduplicate limit [] merged seen = merged"
| "merge_loop deduplicate limit (item # rest) merged seen =
     (if deduplicate \<and> command item \<in> seen then merge_loop deduplicate limit rest merged seen
      else if int (length (merged @ [item])) \<ge> limit then merged @ [item]
      else merge_loop deduplicate limit rest (merged @ [item])
             (if deduplicate then insert (command item) seen else seen))"

definition mergeResults ::
  "history_entry list list \<Rightarrow> bool \<Rightarrow> int \<Rightarrow> history_entry list" where
  "mergeResults resultArrays deduplicate limit =
     merge_loop deduplicate limit (js_sort merge_compare (concat resultArrays)) [] {}"

text \<open>
  \<open>HistoryManager.search(query, options)\<close>: every provider is called with the object
  \<open>{limit, deduplicate}\<close> as its second argument. Outside unified mode the provider is
  looked up and called at once; a missing one is the \<open>TypeError\<close> of calling a method
  on \<open>undefined\<close>.
\<close>

datatype js_error = TypeError

record search_options =
  opt_limit :: "int option"
  opt_deduplicate :: "bool option"

fun search_all ::
  "host \<Rightarrow> filesystem \<Rightarrow> string \<Rightarrow> search_arg \<Rightarrow> (string \<times> provider) list
     \<Rightarrow> history_entry list list \<times> (string \<times> provider) list" where
  "search_all h fs query arg [] = ([], [])"
| "search_all h fs query arg ((name, p) # rest) =
     (case provider_search h fs p query arg of
        (r, p') \<Rightarrow>
          (case search_all h fs query arg rest of (rs, rest') \<Rightarrow> (r # rs, (name, p') # rest')))"

definition manager_search ::
  "host \<Rightarrow> filesystem \<Rightarrow> config \<Rightarrow> history_manager \<Rightarrow> string \<Rightarrow> search_options
     \<Rightarrow> js_error + history_entry list \<times> history_manager" where
  "manager_search h fs cfg m0 query options =
     (let m = initialize h fs cfg m0;
          limit = (case opt_limit options of
                     Some l \<Rightarrow> l
                   | None \<Rightarrow> or_int (history_search_max_results cfg) 50);
          deduplicate = (case opt_deduplicate options of
                           Some d \<Rightarrow> d
                         | None \<Rightarrow> (case history_search_deduplicate cfg of
                                      Some d \<Rightarrow> d | None \<Rightarrow> True));
          arg = Options (Some limit) (Some deduplicate);
          active = (if mode m = ''shell'' \<and> currentShell m \<noteq> None
                       \<and> map_of (providers m) (the (currentShell m)) \<noteq> None
                    then the (currentShell m) else ''aish'')
      in if mode m = ''unified'' then
           (case search_all h fs query arg (providers m) of
              (allResults, ps) \<Rightarrow>
                Inr (mergeResults allResults deduplicate limit, m\<lparr>providers := ps\<rparr>))
         else
           (case map_of (providers m) active of
              None \<Rightarrow> Inl TypeError
            | Some p \<Rightarrow>
                (case provider_search h fs p query arg of
                   (r, p') \<Rightarrow> Inr (r, m\<lparr>providers := map_set active p' (providers m)\<rparr>))))"

text \<open>\<open>HistoryManager.add(command, metadata)\<close>.\<close>

definition manager_add ::
  "host \<Rightarrow> filesystem \<Rightarrow> config \<Rightarrow> int \<Rightarrow> history_manager \<Rightarrow> string \<Rightarrow> add_metadata
     \<Rightarrow> history_manager" where
  "manager_add h fs cfg now m0 cmd md =
     (let m = initialize h fs cfg m0
      in case map_of (providers m) ''aish'' of
           None \<Rightarrow> m
         | Some aishProvider \<Rightarrow>
             m\<lparr>providers := map_set ''aish'' (aish_add h fs now aishProvider cmd md) (providers m)\<rparr>)"


section \<open>Completion manager\<close>

datatype completion_metadata =
  BackendMeta "(string \<times> string) list"
| HistoryMeta "int option" "int option" "string option"

record completion =
  c_text :: string
  c_display :: string
  c_description :: string
  c_type :: string
  c_priority :: int
  c_metadata :: completion_metadata
  c_score :: "rat option"
  c_matches :: "(nat \<times> nat) list option"

record completion_context =
  ctx_command :: "string option"
  ctx_position :: "nat option"
  ctx_cwd :: "string option"

record shell_context =
  sc_context :: completion_context
  sc_currentWord :: string
  isCommand :: bool
  isArgument :: bool
  isOption :: bool
  isPath :: bool
  isVariable :: bool

text \<open>
  The collaborators of the completion manager: the active shell backend
  (\<open>getCompletionsForWord\<close>), the history manager's \<open>search\<close>, \<open>formatTimestamp\<close> (it
  reads the clock and the locale), \<open>localeCompare\<close>, and the searcher chosen by the
  factory: \<open>fzf = None\<close> when the factory falls back to \<open>JSFuzzySearcher\<close>, otherwise the
  external helper's \<open>search\<close>.
\<close>

record collaborators =
  backend :: "string \<Rightarrow> shell_context \<Rightarrow> completion list"
  history_search :: "string \<Rightarrow> search_options \<Rightarrow> history_entry list"
  formatTimestamp :: "int \<Rightarrow> string"
  localeCompare :: "string \<Rightarrow> string \<Rightarrow> int"
  fzf :: "(completion list \<Rightarrow> string \<Rightarrow> int \<Rightarrow> completion search_result list) option"

record cache_entry =
  ce_value :: "completion list"
  ce_timestamp :: int

record completion_manager =
  cache :: "string \<rightharpoonup> cache_entry"
  cacheTimeout :: int

definition new_completion_manager :: "config \<Rightarrow> completion_manager" where
  "new_completion_manager cfg =
     \<lparr>cache = Map.empty, cacheTimeout = or_int (completion_cache_ttl cfg) 300000\<rparr>"

text \<open>Decimal rendering of a number in a template literal.\<close>

function string_of_nat :: "nat \<Rightarrow> string" where
  "string_of_nat n =
     (if n < 10 then [''0123456789'' ! n]
      else string_of_nat (n div 10) @ [''0123456789'' ! (n mod 10)])"
  by pat_completeness auto
termination
  by (relation "measure id") auto

definition cacheKey :: "string \<Rightarrow> completion_context \<Rightarrow> string" where
  "cacheKey currentWord ctx =
     currentWord @ '':'' @ or_str (ctx_command ctx) [] @ '':''
       @ string_of_nat (case ctx_position ctx of None \<Rightarrow> 0 | Some n \<Rightarrow> n) @ '':''
       @ or_str (ctx_cwd ctx) []"

definition getCached :: "completion_manager \<Rightarrow> int \<Rightarrow> string \<Rightarrow> completion list option" where
  "getCached cm now key =
     (case cache cm key of
        None \<Rightarrow> None
      | Some cached \<Rightarrow>
          if now - ce_timestamp cached < cacheTimeout cm then Some (ce_value cached) else None)"

definition cacheResult ::
  "completion_manager \<Rightarrow> int \<Rightarrow> string \<Rightarrow> completion list
     \<Rightarrow> completion list \<times> completion_manager" where
  "cacheResult cm now key v =
     (v, cm\<lparr>cache := (cache cm)(key \<mapsto> \<lparr>ce_value = v, ce_timestamp = now\<rparr>)\<rparr>)"

definition startsWith_char :: "string \<Rightarrow> char \<Rightarrow> bool" where
  "startsWith_char s c = (s \<noteq> [] \<and> hd s = c)"

definition shellContext :: "string \<Rightarrow> completion_context \<Rightarrow> shell_context" where
  "shellContext currentWord ctx =
     \<lparr>sc_context = ctx,
      sc_currentWord = currentWord,
      isCommand = (ctx_position ctx = Some 0 \<or> or_str (ctx_command ctx) [] = []),
      isArgument = (case ctx_position ctx of None \<Rightarrow> False | Some n \<Rightarrow> n > 0),
      isOption = startsWith_char currentWord (CHR ''-''),
      isPath = (CHR ''/'' \<in> set currentWord \<or> startsWith_char currentWord (CHR ''~'')),
      isVariable = startsWith_char currentWord (CHR ''$'')\<rparr>"

fun history_completions_from ::
  "collaborators \<Rightarrow> int \<Rightarrow> history_entry list \<Rightarrow> completion list" where
  "history_completions_from env index [] = []"
| "history_completions_from env index (item # rest) =
     \<lparr>c_text = command item,
      c_display = command item,
      c_description =
        (if truthy_ts (timestamp item)
         then ''history - '' @ formatTimestamp env (the (timestamp item)) else ''history''),
      c_type = ''history'',
      c_priority = 100 - index,
      c_metadata = HistoryMeta (timestamp item) (exitCode item) (source (metadata item)),
      c_score = None,
      c_matches = None\<rparr>
     # history_completions_from env (index + 1) rest"

definition getHistoryCompletions :: "collaborators \<Rightarrow> string \<Rightarrow> completion list" where
  "getHistoryCompletions env input =
     history_completions_from env 0
       (history_search env input \<lparr>opt_limit = Some 20, opt_deduplicate = None\<rparr>)"

definition applyFuzzySearch ::
  "config \<Rightarrow> collaborators \<Rightarrow> completion list \<Rightarrow> string \<Rightarrow> completion list" where
  "applyFuzzySearch cfg env completions query =
     (let limit = or_int (completion_max_suggestions cfg) 10;
          results =
            (case fzf env of
               None \<Rightarrow>
                 JSFuzzySearcher_search c_text completions query limit (double (3 / 10)) True
             | Some helper \<Rightarrow> helper completions query limit)
      in map (\<lambda>r. (result_item r)\<lparr>c_score := Some (result_score r),
                                   c_matches := Some (result_matches r)\<rparr>) results)"

definition sort_compare :: "collaborators \<Rightarrow> completion \<Rightarrow> completion \<Rightarrow> int" where
  "sort_compare env a b =
     (if c_priority a \<noteq> c_priority b then c_priority b - c_priority a
      else localeCompare env (c_text a) (c_text b))"

definition sortCompletions :: "collaborators \<Rightarrow> completion list \<Rightarrow> completion list" where
  "sortCompletions env completions = js_sort (sort_compare env) completions"

text \<open>
  The candidates of steps 1 and 2 of \<open>getCompletions\<close>, and \<open>getCompletions\<close> itself.
  \<open>now_read\<close> is the clock reading inside \<open>getCached\<close>, \<open>now_write\<close> the later one
  inside \<open>cacheResult\<close>. A cached value is an array, which is always truthy.
\<close>

definition collectCompletions ::
  "config \<Rightarrow> collaborators \<Rightarrow> string \<Rightarrow> completion_context \<Rightarrow> completion list" where
  "collectCompletions cfg env currentWord ctx =
     (if completion_enabled cfg \<noteq> Some False
      then backend env currentWord (shellContext currentWord ctx) else [])
     @ (if completion_history_suggestions cfg \<noteq> Some False \<and> ctx_position ctx = Some 0
        then getHistoryCompletions env currentWord else [])"

definition rankCompletions ::
  "config \<Rightarrow> collaborators \<Rightarrow> string \<Rightarrow> completion list \<Rightarrow> completion list" where
  "rankCompletions cfg env currentWord completions =
     (if completion_fuzzy_search cfg = Some True \<and> js_trim currentWord \<noteq> []
      then applyFuzzySearch cfg env completions currentWord
      else sortCompletions env completions)"

definition getCompletions ::
  "config \<Rightarrow> collaborators \<Rightarrow> int \<Rightarrow> int \<Rightarrow> completion_manager \<Rightarrow> string \<Rightarrow> completion_context
     \<Rightarrow> completion list \<times> completion_manager" where
  "getCompletions cfg env now_read now_write cm input ctx =
     (let currentWord = input;
          key = cacheKey currentWord ctx
      in case getCached cm now_read key of
           Some cached \<Rightarrow> (cached, cm)
         | None \<Rightarrow>
             cacheResult cm now_write key
               (rankCompletions cfg env currentWord (collectCompletions cfg env currentWord ctx)))"


section \<open>Properties of the number model\<close>

lemma bitlen_powi_bounds:
  assumes "0 < p"
  shows "(2::rat) powi (bitlen p - 1) \<le> of_int p" and "of_int p < (2::rat) powi bitlen p"
proof -
  have b: "0 \<le> bitlen p - 1" "0 \<le> bitlen p"
    using assms bitlen_bounds[OF assms] bitlen_nonneg[of p]
    by (auto simp: bitlen_def floorlog_def split: if_splits)
  have "(2::int) ^ nat (bitlen p - 1) \<le> p" and "p < 2 ^ nat (bitlen p)"
    using bitlen_bounds[OF assms] by auto
  then have "(of_int ((2::int) ^ nat (bitlen p - 1)) :: rat) \<le> of_int p"
    and "(of_int p :: rat) < of_int (2 ^ nat (bitlen p))"
    by (simp_all only: of_int_le_iff of_int_less_iff)
  then show "(2::rat) powi (bitlen p - 1) \<le> of_int p" and "of_int p < (2::rat) powi bitlen p"
    using b by (simp_all add: power_int_def)
qed

lemma ilog2_bounds:
  assumes "0 < x"
  shows "2 powi ilog2 x \<le> x" and "x < 2 powi (ilog2 x + 1)"
proof -
  obtain p q where pq: "quotient_of x = (p, q)" by (cases "quotient_of x")
  have q: "0 < q" using pq by (rule quotient_of_denom_pos)
  have x: "x = of_int p / of_int q" using pq by (rule quotient_of_div)
  have p: "0 < p"
    using assms q unfolding x by (simp add: zero_less_divide_iff)
  define k where "k = bitlen p - bitlen q"
  have qpos: "(0::rat) < of_int q" using q by simp
  have up: "x < 2 powi (k + 1)"
  proof -
    have "of_int p < (2::rat) powi bitlen p" using bitlen_powi_bounds(2)[OF p] .
    also have "\<dots> = 2 powi (k + 1) * 2 powi (bitlen q - 1)"
      by (simp add: k_def power_int_add [symmetric])
    also have "\<dots> \<le> 2 powi (k + 1) * of_int q"
      using bitlen_powi_bounds(1)[OF q] by (intro mult_left_mono) simp_all
    finally show ?thesis unfolding x using qpos by (simp add: pos_divide_less_eq)
  qed
  have low: "2 powi (k - 1) < x"
  proof -
    have "2 powi (k - 1) * of_int q < (2::rat) powi (k - 1) * 2 powi bitlen q"
      using bitlen_powi_bounds(2)[OF q] by (intro mult_strict_left_mono) simp_all
    also have "\<dots> = 2 powi (bitlen p - 1)"
      by (simp add: k_def power_int_add [symmetric])
    also have "\<dots> \<le> of_int p" using bitlen_powi_bounds(1)[OF p] .
    finally show ?thesis unfolding x using qpos by (simp add: pos_less_divide_eq)
  qed
  have il: "ilog2 x = (if 2 powi k \<le> x then k else k - 1)"
    by (simp add: ilog2_def pq k_def Let_def)
  show "2 powi ilog2 x \<le> x" using low by (simp add: il)
  show "x < 2 powi (ilog2 x + 1)" using up by (simp add: il)
qed

lemma ilog2_mono:
  assumes "0 < x" and "x \<le> y"
  shows "ilog2 x \<le> ilog2 y"
proof (rule ccontr)
  assume "\<not> ilog2 x \<le> ilog2 y"
  then have "ilog2 y + 1 \<le> ilog2 x" by simp
  then have "(2::rat) powi (ilog2 y + 1) \<le> 2 powi ilog2 x"
    by (intro power_int_increasing) simp_all
  also have "\<dots> \<le> x" using ilog2_bounds(1)[OF assms(1)] .
  also have "\<dots> \<le> y" by fact
  also have "\<dots> < 2 powi (ilog2 y + 1)" using ilog2_bounds(2)[of y] assms by simp
  finally show False by simp
qed

lemma round_even_of_int [simp]: "round_even (of_int n) = n"
  by (simp add: round_even_def)

lemma round_even_floor: "\<lfloor>x\<rfloor> \<le> round_even x" "round_even x \<le> \<lfloor>x\<rfloor> + 1"
  by (simp_all add: round_even_def Let_def)

lemma round_even_mono:
  assumes "x \<le> y"
  shows "round_even x \<le> round_even y"
proof (cases "\<lfloor>x\<rfloor> = \<lfloor>y\<rfloor>")
  case True
  then show ?thesis using assms by (auto simp: round_even_def Let_def)
next
  case False
  then have "\<lfloor>x\<rfloor> + 1 \<le> \<lfloor>y\<rfloor>"
    using floor_mono[OF assms] by simp
  then show ?thesis
    using round_even_floor(2)[of x] round_even_floor(1)[of y] by linarith
qed

lemma round_even_ge: "of_int n \<le> x \<Longrightarrow> n \<le> round_even x"
  using round_even_mono[of "of_int n" x] by simp

lemma round_even_le: "x \<le> of_int n \<Longrightarrow> round_even x \<le> n"
  using round_even_mono[of x "of_int n"] by simp

lemma double_0 [simp]: "double 0 = 0"
  by (simp add: double_def)

lemma pow2_split: "(2::rat) ^ n * 2 powi (k - int n) = 2 powi k"
proof -
  have "(2::rat) powi int n * 2 powi (k - int n) = 2 powi (int n + (k - int n))"
    by (rule power_int_add [symmetric]) simp
  then show ?thesis by (simp add: power_int_of_nat)
qed

lemma pow2_52: "(2::rat) ^ 52 * 2 powi (k - 52) = 2 powi k"
  using pow2_split[of 52 k] by simp

lemma pow2_53: "(2::rat) ^ 53 * 2 powi (k - 52) = 2 powi (k + 1)"
  using pow2_split[of 53 "k + 1"] by simp

lemma double_pos_mantissa:
  assumes "0 < x"
  shows "2 ^ 52 \<le> round_even (x / 2 powi (ilog2 x - 52))"
    and "round_even (x / 2 powi (ilog2 x - 52)) \<le> 2 ^ 53"
proof -
  have pw: "(0::rat) < 2 powi (ilog2 x - 52)" by (simp add: zero_less_power_int)
  have "(2::rat) ^ 52 * 2 powi (ilog2 x - 52) \<le> x"
    unfolding pow2_52 using ilog2_bounds(1)[OF assms] .
  then have "of_int (2 ^ 52) \<le> x / 2 powi (ilog2 x - 52)"
    using pw by (simp add: pos_le_divide_eq)
  then show "2 ^ 52 \<le> round_even (x / 2 powi (ilog2 x - 52))"
    by (rule round_even_ge)
  have "x \<le> (2::rat) ^ 53 * 2 powi (ilog2 x - 52)"
    unfolding pow2_53 using ilog2_bounds(2)[OF assms] by simp
  then have "x / 2 powi (ilog2 x - 52) \<le> of_int (2 ^ 53)"
    using pw by (simp add: pos_divide_le_eq)
  then show "round_even (x / 2 powi (ilog2 x - 52)) \<le> 2 ^ 53"
    by (rule round_even_le)
qed

lemma double_pos_eq:
  "0 < x \<Longrightarrow> double x = of_int (round_even (x / 2 powi (ilog2 x - 52))) * 2 powi (ilog2 x - 52)"
  by (simp add: double_def Let_def)

lemma double_pos_bounds:
  assumes "0 < x"
  shows "2 powi ilog2 x \<le> double x" and "double x \<le> 2 powi (ilog2 x + 1)"
proof -
  let ?e = "ilog2 x - 52"
  let ?r = "round_even (x / 2 powi ?e)"
  have pw: "(0::rat) \<le> 2 powi ?e" by (simp add: zero_less_power_int less_imp_le)
  have "(2::rat) powi ilog2 x = of_int (2 ^ 52) * 2 powi ?e"
    using pow2_52[of "ilog2 x"] by simp
  also have "\<dots> \<le> of_int ?r * 2 powi ?e"
    using double_pos_mantissa(1)[OF assms] pw
    by (intro mult_right_mono) (simp_all only: of_int_le_iff)
  finally show "2 powi ilog2 x \<le> double x" by (simp add: double_pos_eq[OF assms])
  have "of_int ?r * 2 powi ?e \<le> of_int (2 ^ 53) * (2::rat) powi ?e"
    using double_pos_mantissa(2)[OF assms] pw
    by (intro mult_right_mono) (simp_all only: of_int_le_iff)
  also have "\<dots> = 2 powi (ilog2 x + 1)"
    using pow2_53[of "ilog2 x"] by simp
  finally show "double x \<le> 2 powi (ilog2 x + 1)" by (simp add: double_pos_eq[OF assms])
qed

lemma double_pos: "0 < x \<Longrightarrow> 0 < double x"
proof -
  assume "0 < x"
  have "(0::rat) < 2 powi ilog2 x" by (rule zero_less_power_int) simp
  also have "\<dots> \<le> double x" using \<open>0 < x\<close> by (rule double_pos_bounds(1))
  finally show ?thesis .
qed

lemma double_mono_pos:
  assumes "0 < x" and "x \<le> y"
  shows "double x \<le> double y"
proof -
  have y: "0 < y" using assms by simp
  have le: "ilog2 x \<le> ilog2 y" using assms by (rule ilog2_mono)
  show ?thesis
  proof (cases "ilog2 x = ilog2 y")
    case True
    let ?e = "ilog2 y - 52"
    have pw: "(0::rat) < 2 powi ?e" by (simp add: zero_less_power_int)
    have "x / 2 powi ?e \<le> y / 2 powi ?e"
      using assms(2) pw by (simp add: divide_right_mono less_imp_le)
    then have "round_even (x / 2 powi ?e) \<le> round_even (y / 2 powi ?e)"
      by (rule round_even_mono)
    then have "of_int (round_even (x / 2 powi ?e)) * 2 powi ?e
                 \<le> of_int (round_even (y / 2 powi ?e)) * (2::rat) powi ?e"
      using pw by (intro mult_right_mono) simp_all
    then show ?thesis
      by (simp add: double_pos_eq[OF assms(1)] double_pos_eq[OF y] True)
  next
    case False
    then have "ilog2 x + 1 \<le> ilog2 y" using le by simp
    then have "(2::rat) powi (ilog2 x + 1) \<le> 2 powi ilog2 y"
      by (intro power_int_increasing) simp_all
    then show ?thesis
      using double_pos_bounds(2)[OF assms(1)] double_pos_bounds(1)[OF y] by linarith
  qed
qed

lemma double_mono:
  assumes "0 \<le> x" and "x \<le> y"
  shows "double x \<le> double y"
proof (cases "x = 0")
  case True
  then show ?thesis
    using assms double_pos[of y] by (cases "y = 0") (simp_all add: less_imp_le)
next
  case False
  then show ?thesis using assms by (intro double_mono_pos) simp_all
qed

lemma double_neg:
  assumes "x < 0"
  shows "double x < 0"
proof -
  let ?e = "ilog2 \<bar>x\<bar> - 52"
  have ax: "0 < \<bar>x\<bar>" using assms by simp
  have pw: "(0::rat) < 2 powi ?e" by (simp add: zero_less_power_int)
  have "(2::rat) ^ 52 * 2 powi ?e \<le> \<bar>x\<bar>"
    unfolding pow2_52 using ilog2_bounds(1)[OF ax] .
  then have "(2::rat) ^ 52 * 2 powi ?e \<le> - x"
    using assms by simp
  then have "x \<le> of_int (- (2 ^ 52)) * 2 powi ?e" by simp
  then have "x / 2 powi ?e \<le> of_int (- (2 ^ 52))"
    using pw by (simp only: pos_divide_le_eq)
  then have "round_even (x / 2 powi ?e) \<le> - (2 ^ 52)"
    by (rule round_even_le)
  then have "round_even (x / 2 powi ?e) < 0" by simp
  then have "of_int (round_even (x / 2 powi ?e)) * (2::rat) powi ?e < 0"
    using pw by (simp add: mult_less_0_iff)
  then show ?thesis using assms by (simp add: double_def Let_def)
qed

lemma double_le_0_iff: "(double z \<le> 0) = (z \<le> 0)"
proof (cases z "0::rat" rule: linorder_cases)
  case less
  then show ?thesis using double_neg[of z] by simp
next
  case equal
  then show ?thesis by simp
next
  case greater
  then show ?thesis using double_pos[of z] by simp
qed

lemma double_exact:
  assumes "0 < m" and "m < 2 ^ 53"
  shows "double (of_int m * 2 powi j) = of_int m * 2 powi j"
proof -
  let ?x = "of_int m * (2::rat) powi j"
  have x: "0 < ?x" using assms(1) by (simp add: zero_less_power_int)
  let ?e = "ilog2 ?x - 52"
  have je: "?e \<le> j"
  proof (rule ccontr)
    assume "\<not> ?e \<le> j"
    then have "j + 53 \<le> ilog2 ?x" by simp
    have pj: "(0::rat) < 2 powi j" by (rule zero_less_power_int) simp
    have "(of_int m :: rat) < of_int (2 ^ 53)"
      using assms(2) by (simp only: of_int_less_iff)
    then have "?x < of_int (2 ^ 53) * 2 powi j"
      using pj by (rule mult_strict_right_mono)
    also have "\<dots> = 2 powi (j + 53)"
      using pow2_split[of 53 "j + 53"] by simp
    also have "\<dots> \<le> 2 powi ilog2 ?x"
      using \<open>j + 53 \<le> ilog2 ?x\<close> by (intro power_int_increasing) simp_all
    also have "\<dots> \<le> ?x" using ilog2_bounds(1)[OF x] .
    finally show False by simp
  qed
  have "?x / 2 powi ?e = of_int m * 2 powi (j - ?e)"
    by (simp add: power_int_diff)
  also have "\<dots> = of_int (m * 2 ^ nat (j - ?e))"
    using je by (simp add: power_int_def)
  finally have "round_even (?x / 2 powi ?e) = m * 2 ^ nat (j - ?e)"
    by (simp only: round_even_of_int)
  then have "double ?x = of_int (m * 2 ^ nat (j - ?e)) * 2 powi ?e"
    by (simp only: double_pos_eq[OF x])
  also have "\<dots> = of_int m * (2 powi (j - ?e) * 2 powi ?e)"
    using je by (simp add: power_int_def)
  also have "\<dots> = ?x"
    by (simp add: power_int_add [symmetric])
  finally show ?thesis .
qed

lemma double_of_nat: "n < 2 ^ 53 \<Longrightarrow> double (of_nat n) = of_nat n"
  using double_exact[of "int n" 0] by (cases "n = 0") simp_all

lemma double_half_of_nat: "n < 2 ^ 53 \<Longrightarrow> double (of_nat n / 2) = of_nat n / 2"
  using double_exact[of "int n" "-1"] by (cases "n = 0") (simp_all add: power_int_minus field_simps)

lemma double_ge:
  assumes "0 \<le> a" and "a \<le> x" and "double a = a"
  shows "a \<le> double x"
  using double_mono[OF assms(1,2)] assms(3) by simp

lemma double_le:
  assumes "0 \<le> x" and "x \<le> a" and "double a = a"
  shows "double x \<le> a"
  using double_mono[OF assms(1,2)] assms(3) by simp

lemma double_nonneg: "0 \<le> x \<Longrightarrow> 0 \<le> double x"
  using double_mono[of 0 x] by simp

lemma double_three_halves: "n < 2 ^ 51 \<Longrightarrow> double (3 / 2 * of_nat n) = 3 / 2 * of_nat n"
  using double_half_of_nat[of "3 * n"] by simp

lemma double_consts:
  "double 1 = 1" "double (1 / 2) = 1 / 2" "double (3 / 2) = 3 / 2" "double (1 / 4) = 1 / 4"
  "double (3 / 4) = 3 / 4" "double (3 / 8) = 3 / 8"
  using double_exact[of 1 0] double_exact[of 1 "-1"] double_exact[of 3 "-1"]
    double_exact[of 1 "-2"] double_exact[of 3 "-2"] double_exact[of 3 "-3"]
  by (simp_all add: power_int_minus)

lemma literal_bounds:
  "double (3 / 10) \<le> 3 / 8" "3 / 8 \<le> double (8 / 10)" "3 / 8 \<le> double (9 / 10)"
  "0 < double (3 / 10)"
  by (intro double_le double_ge double_pos; simp add: double_consts)+

section \<open>Properties of the fuzzy scorer\<close>

text \<open>
  Claim C1, as stated: \<open>score("git","git") = 1.0\<close>, \<open>score("xyz","git") = 0\<close> and
  \<open>score("gti","git") > 0\<close>. The third part fails: the scorer matches the query as an
  in-order subsequence of the target, after \<open>g\<close> and \<open>t\<close> of \<open>git\<close> are consumed no
  \<open>i\<close> is left, and the score is the literal \<open>0\<close>.
\<close>

theorem calculateScore_gti_counterexample:
  "\<not> (score (calculateScore ''git'' ''git'' True) = 1
      \<and> score (calculateScore ''xyz'' ''git'' True) = 0
      \<and> score (calculateScore ''gti'' ''git'' True) > 0)"
  by code_simp

text \<open>
  Claim C1, amended: \<open>score("git","git") = 1.0\<close>, \<open>score("xyz","git") = 0\<close> and
  \<open>score("gti","git") = 0\<close>, because \<open>gti\<close> is not an in-order subsequence of
  \<open>git\<close>; the in-order query \<open>gt\<close> scores above zero.
\<close>

theorem calculateScore_examples:
  "score (calculateScore ''git'' ''git'' True) = 1
   \<and> score (calculateScore ''xyz'' ''git'' True) = 0
   \<and> score (calculateScore ''gti'' ''git'' True) = 0
   \<and> score (calculateScore ''gt'' ''git'' True) > 0"
  by code_simp

lemma fuzzy_increment:
  "3 / 2 \<le> double (1 + double (of_nat (c + 1) * (1 / 2)))"
proof -
  have "(1::rat) / 2 \<le> of_nat (c + 1) * (1 / 2)" by simp
  then have "1 / 2 \<le> double (of_nat (c + 1) * (1 / 2))"
    by (intro double_ge) (simp_all add: double_consts)
  then have "3 / 2 \<le> 1 + double (of_nat (c + 1) * (1 / 2))" by simp
  then show ?thesis
    by (intro double_ge) (simp_all add: double_consts)
qed

lemma fuzzy_step_score:
  assumes "3 / 2 * of_nat qi \<le> sc" and "qi + 1 < 2 ^ 51"
  shows "3 / 2 * of_nat (qi + 1)
           \<le> (let sc1 = double (sc + double (1 + double (of_nat (c + 1) * (1 / 2))))
              in if b then double (sc1 + 2) else sc1)"
proof -
  let ?goal = "3 / 2 * of_nat (qi + 1) :: rat"
  have ex: "double ?goal = ?goal" using assms(2) by (rule double_three_halves)
  have nn: "0 \<le> ?goal" by simp
  have "?goal \<le> sc + double (1 + double (of_nat (c + 1) * (1 / 2)))"
    using assms(1) fuzzy_increment[of c] by (simp add: algebra_simps)
  then have one: "?goal \<le> double (sc + double (1 + double (of_nat (c + 1) * (1 / 2))))"
    using nn ex by (intro double_ge)
  then have "?goal \<le> double (sc + double (1 + double (of_nat (c + 1) * (1 / 2)))) + 2"
    by simp
  then have two: "?goal \<le> double (double (sc + double (1 + double (of_nat (c + 1) * (1 / 2)))) + 2)"
    using nn ex by (intro double_ge)
  show ?thesis unfolding Let_def using one two by simp
qed

lemma fuzzy_loop_bounds:
  "fuzzy_loop q t sc ms qi ti m c = (sc', ms', qi', ti', m') \<Longrightarrow>
   length q < 2 ^ 51 \<Longrightarrow> qi \<le> ti \<Longrightarrow> ti \<le> length t \<Longrightarrow> qi \<le> length q \<Longrightarrow>
   3 / 2 * of_nat qi \<le> sc \<Longrightarrow>
     qi' \<le> ti' \<and> ti' \<le> length t \<and> qi' \<le> length q \<and> 3 / 2 * of_nat qi' \<le> sc'"
proof (induction q t sc ms qi ti m c arbitrary: sc' ms' qi' ti' m' rule: fuzzy_loop.induct)
  case (1 q t sc ms qi ti m c)
  show ?case
  proof (cases "qi < length q \<and> ti < length t")
    case False
    then show ?thesis
      using "1.prems" by (subst (asm) fuzzy_loop.simps) auto
  next
    case run: True
    show ?thesis
    proof (cases "q ! qi = t ! ti")
      case True
      let ?sc = "let sc1 = double (sc + double (1 + double (of_nat (c + 1) * (1 / 2))))
                 in if ti = 0 \<or> is_boundary (t ! (ti - 1)) then double (sc1 + 2) else sc1"
      have eq: "fuzzy_loop q t ?sc ms (qi + 1) (ti + 1)
                  (if m = None then Some ti else m) (c + 1) = (sc', ms', qi', ti', m')"
        using "1.prems"(1) run True by (subst (asm) fuzzy_loop.simps) simp
      show ?thesis
      proof (rule "1.IH"(1)[OF run True eq])
        show "length q < 2 ^ 51" by fact
        show "qi + 1 \<le> ti + 1" using "1.prems" by simp
        show "ti + 1 \<le> length t" using run by simp
        show "qi + 1 \<le> length q" using run by simp
        have "qi + 1 < 2 ^ 51" using run "1.prems"(2) by simp
        with "1.prems"(6) show "3 / 2 * of_nat (qi + 1) \<le> ?sc"
          by (rule fuzzy_step_score)
      qed
    next
      case False
      have eq: "fuzzy_loop q t sc
                  (case m of None \<Rightarrow> ms | Some m0 \<Rightarrow> ms @ [(m0, ti)])
                  qi (ti + 1) None 0 = (sc', ms', qi', ti', m')"
        using "1.prems"(1) run False by (subst (asm) fuzzy_loop.simps) simp
      show ?thesis
      proof (rule "1.IH"(2)[OF run False eq])
        show "length q < 2 ^ 51" by fact
        show "qi \<le> ti + 1" using "1.prems" by simp
        show "ti + 1 \<le> length t" using run by simp
        show "qi \<le> length q" using run by simp
        show "3 / 2 * of_nat qi \<le> sc" by fact
      qed
    qed
  qed
qed

lemma fuzzy_score_bound:
  fixes sc :: rat
  assumes "0 < lq" and "lq \<le> lt" and "lq < 2 ^ 51" and "3 / 2 * of_nat lq \<le> sc"
  shows "3 / 8 \<le> double (min (double (sc / double (of_nat lq * 3))) 1
                  * double (1 - double (double ((of_nat lt - of_nat lq) / of_nat lt)
                                        * double (2 / 10))))"
proof -
  have lq: "(0::rat) < of_nat lq" and lt: "(0::rat) < of_nat lt"
    using assms by simp_all
  have mx: "double (of_nat lq * 3) = (of_nat lq * 3 :: rat)"
    using double_of_nat[of "lq * 3"] assms(3) by simp
  have "1 / 2 \<le> sc / (of_nat lq * 3)"
    using assms(4) lq by (simp add: field_simps)
  then have "1 / 2 \<le> double (sc / double (of_nat lq * 3))"
    unfolding mx by (intro double_ge) (simp_all add: double_consts)
  then have n: "1 / 2 \<le> min (double (sc / double (of_nat lq * 3))) 1" by simp
  define x :: rat where "x = (of_nat lt - of_nat lq) / of_nat lt"
  have x0: "0 \<le> x" unfolding x_def using assms(2) lt by simp
  have x1: "x \<le> 1"
    unfolding x_def using lt lq by (simp add: field_simps)
  have r0: "0 \<le> double x" using x0 by (rule double_nonneg)
  have r1: "double x \<le> 1" using x0 x1 by (intro double_le) (simp_all add: double_consts)
  have d0: "0 \<le> double (2 / 10)" by (intro double_nonneg) simp
  have d1: "double (2 / 10) \<le> 1 / 4" by (intro double_le) (simp_all add: double_consts)
  have "double x * double (2 / 10) \<le> 1 * (1 / 4)"
    using r0 r1 d0 d1 by (intro mult_mono) simp_all
  then have "double (double x * double (2 / 10)) \<le> 1 / 4"
    using r0 d0 by (intro double_le) (simp_all add: double_consts)
  then have "3 / 4 \<le> 1 - double (double x * double (2 / 10))" by simp
  then have p: "3 / 4 \<le> double (1 - double (double x * double (2 / 10)))"
    by (intro double_ge) (simp_all add: double_consts)
  have "(1 / 2) * (3 / 4) \<le> min (double (sc / double (of_nat lq * 3))) 1
                  * double (1 - double (double x * double (2 / 10)))"
    by (rule mult_mono [OF n p]) (use n in simp_all)
  then have "3 / 8 \<le> min (double (sc / double (of_nat lq * 3))) 1
                  * double (1 - double (double x * double (2 / 10)))"
    by simp
  then have "3 / 8 \<le> double (min (double (sc / double (of_nat lq * 3))) 1
                  * double (1 - double (double x * double (2 / 10))))"
    by (intro double_ge) (simp_all add: double_consts)
  then show ?thesis unfolding x_def .
qed

lemma length_toLowerCase [simp]: "length (toLowerCase s) = length s"
  by (simp add: toLowerCase_def)

lemma calculateScore_zero_or_large:
  assumes "length query < 2 ^ 51"
  shows "score (calculateScore query target ci) = 0
         \<or> 3 / 8 \<le> score (calculateScore query target ci)"
proof -
  define q where "q = (if ci then toLowerCase query else query)"
  define t where "t = (if ci then toLowerCase target else target)"
  have len: "length q < 2 ^ 51" using assms by (simp add: q_def)
  obtain sc ms qi ti m where loop: "fuzzy_loop q t 0 [] 0 0 None 0 = (sc, ms, qi, ti, m)"
    by (metis prod_cases5)
  have b: "qi \<le> ti \<and> ti \<le> length t \<and> qi \<le> length q \<and> 3 / 2 * of_nat qi \<le> sc"
    by (rule fuzzy_loop_bounds[OF loop len]) simp_all
  show ?thesis
  proof (cases "q = t \<or> prefix q t \<or> includes_str t q \<or> qi < length q")
    case True
    then show ?thesis
      unfolding calculateScore_def Let_def q_def [symmetric] t_def [symmetric] loop
      using literal_bounds by auto
  next
    case False
    then have "q \<noteq> []" by auto
    with False b have lens: "0 < length q" "length q \<le> length t" "qi = length q"
      by auto
    have "3 / 8 \<le> double (min (double (sc / double (of_nat (length q) * 3))) 1
             * double (1 - double (double ((of_nat (length t) - of_nat (length q))
                                            / of_nat (length t))
                                   * double (2 / 10))))"
      by (rule fuzzy_score_bound) (use lens b len in auto)
    then show ?thesis
      using False
      unfolding calculateScore_def Let_def q_def [symmetric] t_def [symmetric] loop
      by simp
  qed
qed

lemma calculateScore_threshold:
  assumes "length query < 2 ^ 51"
  shows "(double (3 / 10) \<le> score (calculateScore query target ci))
           = (0 < score (calculateScore query target ci))"
  using calculateScore_zero_or_large[OF assms, of target ci] literal_bounds by auto

section \<open>Properties of the tokenizer\<close>

lemma tokenize_step_in_quote:
  assumes "inQuote s = Some q"
  shows "current (tokenize_step s c) = current s @ [c]"
    and "words (tokenize_step s c) = words s"
    and "inQuote (tokenize_step s c) =
           (if c = q \<and> \<not> escaped s \<and> c \<noteq> CHR 0x5C then None else Some q)"
  using assms by (auto simp: tokenize_step_def)

lemma tokenize_scan_Nil: "tokenize_scan s [] = s"
  by (simp add: tokenize_scan_def)

lemma tokenize_scan_Cons: "tokenize_scan s (c # cs) = tokenize_scan (tokenize_step s c) cs"
  by (simp add: tokenize_scan_def)

lemma tokenize_scan_append:
  "tokenize_scan s (xs @ ys) = tokenize_scan (tokenize_scan s xs) ys"
  by (simp add: tokenize_scan_def)

lemma tokenize_scan_in_quote:
  "inQuote s = Some q \<Longrightarrow> q \<notin> set body \<Longrightarrow>
     words (tokenize_scan s body) = words s
     \<and> current (tokenize_scan s body) = current s @ body
     \<and> inQuote (tokenize_scan s body) = Some q"
proof (induction body arbitrary: s)
  case Nil
  then show ?case by (simp add: tokenize_scan_Nil)
next
  case (Cons c cs)
  have q: "inQuote (tokenize_step s c) = Some q"
    using Cons.prems by (auto simp: tokenize_step_in_quote(3))
  have "q \<notin> set cs" using Cons.prems by simp
  from Cons.IH[OF q this] show ?case
    using Cons.prems(1) by (simp add: tokenize_scan_Cons tokenize_step_in_quote)
qed

lemma tokenize_quoted_word:
  assumes "q = CHR 0x22 \<or> q = CHR 0x27" and "q \<notin> set body"
  shows "tokenize (q # body @ [q]) = [q # body @ [q]]"
    and "tokenize (q # body) = [q # body]"
proof -
  let ?s1 = "tokenize_step tok_init q"
  have s1: "inQuote ?s1 = Some q" "current ?s1 = [q]" "words ?s1 = []"
    using assms(1) by (auto simp: tokenize_step_def tok_init_def)
  let ?s2 = "tokenize_scan ?s1 body"
  have s2: "words ?s2 = []" "current ?s2 = q # body" "inQuote ?s2 = Some q"
    using tokenize_scan_in_quote[OF s1(1) assms(2)] s1 by simp_all
  let ?s3 = "tokenize_step ?s2 q"
  have s3: "words ?s3 = []" "current ?s3 = q # body @ [q]"
    using s2 by (simp_all add: tokenize_step_in_quote)
  have scan: "tokenize_scan tok_init (q # body @ [q]) = ?s3"
    by (simp add: tokenize_scan_Cons tokenize_scan_append tokenize_scan_Nil)
  show "tokenize (q # body @ [q]) = [q # body @ [q]]"
    unfolding tokenize_def scan Let_def using s3 by simp
  have scan': "tokenize_scan tok_init (q # body) = ?s2"
    by (simp add: tokenize_scan_Cons)
  show "tokenize (q # body) = [q # body]"
    unfolding tokenize_def scan' Let_def using s2 by simp
qed

lemma tokenize_scan_snoc:
  "tokenize_scan s (xs @ [c]) = tokenize_step (tokenize_scan s xs) c"
  by (simp add: tokenize_scan_def)

lemma tokenize_step_inQuote_cases:
  "inQuote (tokenize_step s c) = inQuote s \<or> inQuote (tokenize_step s c) = None
     \<or> (inQuote (tokenize_step s c) = Some c \<and> (c = CHR 0x22 \<or> c = CHR 0x27))"
proof (cases "escaped s")
  case True
  then show ?thesis by (simp add: tokenize_step_def)
next
  case False
  note ne = this
  show ?thesis
  proof (cases "c = CHR 0x5C")
    case True
    then show ?thesis using ne by (simp add: tokenize_step_def)
  next
    case False
    note nb = this
    show ?thesis
    proof (cases "inQuote s")
      case (Some q)
      then show ?thesis using ne nb by (simp add: tokenize_step_def)
    next
      case None
      then show ?thesis using ne nb by (simp add: tokenize_step_def)
    qed
  qed
qed

lemma tokenize_step_quote_char:
  assumes "inQuote s = None \<or> inQuote s = Some (CHR 0x22) \<or> inQuote s = Some (CHR 0x27)"
  shows "inQuote (tokenize_step s c) = None \<or> inQuote (tokenize_step s c) = Some (CHR 0x22)
       \<or> inQuote (tokenize_step s c) = Some (CHR 0x27)"
  using assms tokenize_step_inQuote_cases[of s c] by metis

lemma tokenize_scan_quote_char:
  "inQuote (tokenize_scan tok_init pre) = None
     \<or> inQuote (tokenize_scan tok_init pre) = Some (CHR 0x22)
     \<or> inQuote (tokenize_scan tok_init pre) = Some (CHR 0x27)"
proof (induction pre rule: rev_induct)
  case Nil
  then show ?case by (simp add: tokenize_scan_Nil tok_init_def)
next
  case (snoc c pre)
  then show ?case
    unfolding tokenize_scan_snoc by (rule tokenize_step_quote_char)
qed

lemma tokenize_step_in_quote_exact:
  assumes "inQuote s = Some q" and "q \<noteq> CHR 0x5C"
  shows "inQuote (tokenize_step s c) = (if c = q \<and> \<not> escaped s then None else Some q)"
    and "escaped (tokenize_step s c) = (\<not> escaped s \<and> c = CHR 0x5C)"
  using assms by (auto simp: tokenize_step_def)

lemma tokenize_step_keeps_quote_chars:
  "filter (\<lambda>c. c = CHR 0x22 \<or> c = CHR 0x27)
       (concat (words (tokenize_step s c)) @ current (tokenize_step s c))
     = filter (\<lambda>c. c = CHR 0x22 \<or> c = CHR 0x27) (concat (words s) @ current s @ [c])"
proof (cases "escaped s")
  case True
  then show ?thesis by (simp add: tokenize_step_def)
next
  case False
  note ne = this
  show ?thesis
  proof (cases "c = CHR 0x5C")
    case True
    then show ?thesis using ne by (simp add: tokenize_step_def)
  next
    case False
    note nb = this
    show ?thesis
    proof (cases "inQuote s")
      case (Some q)
      then show ?thesis using ne nb by (simp add: tokenize_step_def)
    next
      case None
      show ?thesis
      proof (cases "c = CHR 0x22 \<or> c = CHR 0x27")
        case True
        then show ?thesis using ne nb None by (simp add: tokenize_step_def)
      next
        case False
        note nq = this
        show ?thesis
        proof (cases "c = CHR '' '' \<or> c = CHR 0x09")
          case True
          then show ?thesis using ne nb None nq by (simp add: tokenize_step_def)
        next
          case False
          then show ?thesis using ne nb None nq by (simp add: tokenize_step_def)
        qed
      qed
    qed
  qed
qed

lemma tokenize_scan_keeps_quote_chars:
  "filter (\<lambda>c. c = CHR 0x22 \<or> c = CHR 0x27)
       (concat (words (tokenize_scan tok_init line)) @ current (tokenize_scan tok_init line))
     = filter (\<lambda>c. c = CHR 0x22 \<or> c = CHR 0x27) line"
proof (induction line rule: rev_induct)
  case Nil
  then show ?case by (simp add: tokenize_scan_Nil tok_init_def)
next
  case (snoc c line)
  have "filter (\<lambda>c. c = CHR 0x22 \<or> c = CHR 0x27)
       (concat (words (tokenize_scan tok_init (line @ [c])))
          @ current (tokenize_scan tok_init (line @ [c])))
     = filter (\<lambda>c. c = CHR 0x22 \<or> c = CHR 0x27)
         (concat (words (tokenize_scan tok_init line)) @ current (tokenize_scan tok_init line))
       @ filter (\<lambda>c. c = CHR 0x22 \<or> c = CHR 0x27) [c]"
    unfolding tokenize_scan_snoc tokenize_step_keeps_quote_chars
    by (simp only: filter_append append_assoc)
  then show ?case using snoc.IH by simp
qed

lemma tokenize_keeps_quote_chars:
  "filter (\<lambda>c. c = CHR 0x22 \<or> c = CHR 0x27) (concat (tokenize line))
     = filter (\<lambda>c. c = CHR 0x22 \<or> c = CHR 0x27) line"
proof -
  have c: "concat (tokenize line)
      = concat (words (tokenize_scan tok_init line)) @ current (tokenize_scan tok_init line)"
    by (simp add: tokenize_def Let_def)
  show ?thesis unfolding c by (rule tokenize_scan_keeps_quote_chars)
qed

text \<open>
  Claim C6, the part that fails: inside a quote a backslash is appended but is not taken
  literally, it escapes the character after it, so the matching quote character after a
  backslash does not end the quote. On the line \<open>"a\" b\<close> the tokenizer is still inside
  the quote after the second double quote, and the whole line is one word; were the
  backslash literal and the second double quote the end of the quote, the words would be
  \<open>"a\"\<close> and \<open>b\<close>.
\<close>

theorem tokenize_backslash_in_quote_counterexample:
  "inQuote (tokenize_scan tok_init [CHR 0x22, CHR ''a'', CHR 0x5C]) = Some (CHR 0x22)
   \<and> inQuote (tokenize_scan tok_init [CHR 0x22, CHR ''a'', CHR 0x5C, CHR 0x22])
       = Some (CHR 0x22)
   \<and> tokenize [CHR 0x22, CHR ''a'', CHR 0x5C, CHR 0x22, CHR '' '', CHR ''b'']
       = [[CHR 0x22, CHR ''a'', CHR 0x5C, CHR 0x22, CHR '' '', CHR ''b'']]
   \<and> tokenize [CHR 0x22, CHR ''a'', CHR 0x5C, CHR 0x22, CHR '' '', CHR ''b'']
       \<noteq> [[CHR 0x22, CHR ''a'', CHR 0x5C, CHR 0x22], [CHR ''b'']]"
  by (simp add: tokenize_def tokenize_scan_def tokenize_step_def tok_init_def
      endsWith_space_def)

text \<open>
  Claim C6, as the code has it. Let the tokenizer be inside a quoted region after reading
  the prefix \<open>pre\<close> of a line, with \<open>q\<close> the quote character that opened the region
  (\<open>inQuote = Some q\<close>). Then \<open>q\<close> is a double or a single quote, and for every next
  character \<open>c\<close>: \<open>c\<close> is appended to the current word and no word is closed (whitespace
  and backslash included); the region ends exactly when \<open>c\<close> is \<open>q\<close> and is not escaped,
  and otherwise continues with the same \<open>q\<close>; and \<open>c\<close> escapes the character after it
  exactly when it is a backslash that is not itself escaped. So a run of characters
  without \<open>q\<close> is appended as it stands and stays inside the quote, after which an
  unescaped \<open>q\<close> ends the region and an escaped \<open>q\<close> does not. A quoted word is emitted with
  both quote characters (with the opening one when the quote is never closed), and on
  every line the emitted words together hold the quote characters of the line, all of
  them and in order.
\<close>

theorem tokenize_inside_quote:
  assumes "inQuote (tokenize_scan tok_init pre) = Some q"
  shows "(q = CHR 0x22 \<or> q = CHR 0x27)
         \<and> (\<forall>c. current (tokenize_scan tok_init (pre @ [c]))
                  = current (tokenize_scan tok_init pre) @ [c]
               \<and> words (tokenize_scan tok_init (pre @ [c]))
                  = words (tokenize_scan tok_init pre)
               \<and> inQuote (tokenize_scan tok_init (pre @ [c]))
                  = (if c = q \<and> \<not> escaped (tokenize_scan tok_init pre) then None
                     else Some q)
               \<and> escaped (tokenize_scan tok_init (pre @ [c]))
                  = (\<not> escaped (tokenize_scan tok_init pre) \<and> c = CHR 0x5C))
         \<and> (\<forall>body. q \<notin> set body \<longrightarrow>
               words (tokenize_scan tok_init (pre @ body)) = words (tokenize_scan tok_init pre)
               \<and> current (tokenize_scan tok_init (pre @ body))
                   = current (tokenize_scan tok_init pre) @ body
               \<and> inQuote (tokenize_scan tok_init (pre @ body)) = Some q
               \<and> current (tokenize_scan tok_init (pre @ body @ [q]))
                   = current (tokenize_scan tok_init pre) @ body @ [q]
               \<and> inQuote (tokenize_scan tok_init (pre @ body @ [q]))
                   = (if escaped (tokenize_scan tok_init (pre @ body)) then Some q else None))
         \<and> (\<forall>body. q \<notin> set body \<longrightarrow>
               tokenize (q # body @ [q]) = [q # body @ [q]]
               \<and> tokenize (q # body) = [q # body])
         \<and> (\<forall>line. filter (\<lambda>c. c = CHR 0x22 \<or> c = CHR 0x27) (concat (tokenize line))
               = filter (\<lambda>c. c = CHR 0x22 \<or> c = CHR 0x27) line)"
proof -
  let ?s = "tokenize_scan tok_init pre"
  have q: "q = CHR 0x22 \<or> q = CHR 0x27"
    using tokenize_scan_quote_char[of pre] assms by auto
  then have nb: "q \<noteq> CHR 0x5C" by auto
  have step: "current (tokenize_scan tok_init (pre @ [c])) = current ?s @ [c]
      \<and> words (tokenize_scan tok_init (pre @ [c])) = words ?s
      \<and> inQuote (tokenize_scan tok_init (pre @ [c]))
          = (if c = q \<and> \<not> escaped ?s then None else Some q)
      \<and> escaped (tokenize_scan tok_init (pre @ [c])) = (\<not> escaped ?s \<and> c = CHR 0x5C)" for c
    unfolding tokenize_scan_snoc
    using tokenize_step_in_quote(1,2)[OF assms, of c]
      tokenize_step_in_quote_exact[OF assms nb, of c] by simp
  have run: "words (tokenize_scan tok_init (pre @ body)) = words ?s
      \<and> current (tokenize_scan tok_init (pre @ body)) = current ?s @ body
      \<and> inQuote (tokenize_scan tok_init (pre @ body)) = Some q
      \<and> current (tokenize_scan tok_init (pre @ body @ [q])) = current ?s @ body @ [q]
      \<and> inQuote (tokenize_scan tok_init (pre @ body @ [q]))
          = (if escaped (tokenize_scan tok_init (pre @ body)) then Some q else None)"
    if b: "q \<notin> set body" for body
  proof -
    let ?t = "tokenize_scan tok_init (pre @ body)"
    have t: "words ?t = words ?s" "current ?t = current ?s @ body" "inQuote ?t = Some q"
      using tokenize_scan_in_quote[OF assms b] by (simp_all add: tokenize_scan_append)
    have e: "tokenize_scan tok_init (pre @ body @ [q]) = tokenize_step ?t q"
      using tokenize_scan_snoc[of tok_init "pre @ body" q] by simp
    show ?thesis
      unfolding e
      using t tokenize_step_in_quote(1)[OF t(3), of q]
        tokenize_step_in_quote_exact(1)[OF t(3) nb, of q] by simp
  qed
  have whole: "tokenize (q # body @ [q]) = [q # body @ [q]] \<and> tokenize (q # body) = [q # body]"
    if b: "q \<notin> set body" for body
    using tokenize_quoted_word[OF q b] by simp
  show ?thesis
  proof (intro conjI allI impI)
    show "q = CHR 0x22 \<or> q = CHR 0x27" by (rule q)
  qed (use step run whole tokenize_keeps_quote_chars in simp_all)
qed

theorem tokenize_inside_quote_witness:
  "inQuote (tokenize_scan tok_init [CHR ''a'', CHR '' '', CHR 0x22, CHR ''b'']) = Some (CHR 0x22)
   \<and> inQuote (tokenize_scan tok_init ([CHR ''a'', CHR '' '', CHR 0x22, CHR ''b''] @ [CHR 0x22]))
       = None
   \<and> current (tokenize_scan tok_init ([CHR ''a'', CHR '' '', CHR 0x22, CHR ''b''] @ [CHR '' '']))
       = [CHR 0x22, CHR ''b'', CHR '' '']
   \<and> words (tokenize_scan tok_init ([CHR ''a'', CHR '' '', CHR 0x22, CHR ''b''] @ [CHR '' '']))
       = [''a'']
   \<and> escaped (tokenize_scan tok_init ([CHR ''a'', CHR '' '', CHR 0x22, CHR ''b''] @ [CHR 0x5C]))
   \<and> inQuote (tokenize_scan tok_init
        ([CHR ''a'', CHR '' '', CHR 0x22, CHR ''b''] @ [CHR '' '', CHR 0x5C] @ [CHR 0x22]))
       = Some (CHR 0x22)
   \<and> tokenize (CHR 0x22 # ''b c'' @ [CHR 0x22]) = [CHR 0x22 # ''b c'' @ [CHR 0x22]]"
proof -
  let ?pre = "[CHR ''a'', CHR '' '', CHR 0x22, CHR ''b'']"
  have inside: "inQuote (tokenize_scan tok_init ?pre) = Some (CHR 0x22)"
    by (simp add: tokenize_scan_def tokenize_step_def tok_init_def)
  have st: "current (tokenize_scan tok_init ?pre) = [CHR 0x22, CHR ''b'']"
    "words (tokenize_scan tok_init ?pre) = [''a'']"
    "\<not> escaped (tokenize_scan tok_init ?pre)"
    by (simp_all add: tokenize_scan_def tokenize_step_def tok_init_def)
  have e2: "escaped (tokenize_scan tok_init (?pre @ [CHR '' '', CHR 0x5C]))"
    by (simp add: tokenize_scan_def tokenize_step_def tok_init_def)
  note t = tokenize_inside_quote [OF inside]
  note one = t [THEN conjunct2, THEN conjunct1, rule_format]
  note run = t [THEN conjunct2, THEN conjunct2, THEN conjunct1, rule_format]
  note whole = t [THEN conjunct2, THEN conjunct2, THEN conjunct2, THEN conjunct1, rule_format]
  have r: "inQuote (tokenize_scan tok_init (?pre @ [CHR '' '', CHR 0x5C] @ [CHR 0x22]))
      = Some (CHR 0x22)"
    using run [of "[CHR '' '', CHR 0x5C]"] e2 by simp
  have w: "tokenize (CHR 0x22 # ''b c'' @ [CHR 0x22]) = [CHR 0x22 # ''b c'' @ [CHR 0x22]]"
    using whole [of "''b c''"] by simp
  have o1: "inQuote (tokenize_scan tok_init (?pre @ [CHR 0x22])) = None"
    using one [of "CHR 0x22"] st by simp
  have o2: "current (tokenize_scan tok_init (?pre @ [CHR '' ''])) = [CHR 0x22, CHR ''b'', CHR '' '']"
    "words (tokenize_scan tok_init (?pre @ [CHR '' ''])) = [''a'']"
    using one [of "CHR '' ''"] st by simp_all
  have o3: "escaped (tokenize_scan tok_init (?pre @ [CHR 0x5C]))"
    using one [of "CHR 0x5C"] st by simp
  show ?thesis
    by (intro conjI) (fact inside o1 o2 o3 r w)+
qed

text \<open>
  The examples of the specification: a quoted word keeps its quotes, an unterminated
  quote is emitted as it stands, and a line that ends in a space yields a trailing empty
  word.
\<close>

lemma tokenize_spec_examples:
  "tokenize (''a '' @ [CHR 0x22] @ ''b c'' @ [CHR 0x22] @ '' d'')
     = [''a'', [CHR 0x22] @ ''b c'' @ [CHR 0x22], ''d'']"
  "tokenize (''a '' @ [CHR 0x22] @ ''b'') = [''a'', [CHR 0x22] @ ''b'']"
  "tokenize ''ls '' = [''ls'', []]"
  by (simp_all add: tokenize_def tokenize_scan_def tokenize_step_def tok_init_def
      endsWith_space_def)

text \<open>
  No empty word is emitted before the last position, and a line whose last character is
  an unquoted, unescaped space yields the words of the same line ending in a tab,
  followed by one empty word.
\<close>

lemma tokenize_step_words_nonempty:
  "[] \<notin> set (words s) \<Longrightarrow> [] \<notin> set (words (tokenize_step s c))"
  by (auto simp: tokenize_step_def split: option.splits)

lemma tokenize_scan_words_nonempty:
  "[] \<notin> set (words s) \<Longrightarrow> [] \<notin> set (words (tokenize_scan s line))"
  by (induction line arbitrary: s)
    (simp_all add: tokenize_scan_Nil tokenize_scan_Cons tokenize_step_words_nonempty)

lemma tokenize_empty_word_only_last:
  "[] \<notin> set (butlast (tokenize line))"
proof -
  have "[] \<notin> set (words (tokenize_scan tok_init line))"
    by (rule tokenize_scan_words_nonempty) (simp add: tok_init_def)
  then show ?thesis
    by (auto simp: tokenize_def Let_def butlast_append dest: in_set_butlastD)
qed

lemma tokenize_step_whitespace:
  assumes "inQuote s = None" and "\<not> escaped s" and "c = CHR '' '' \<or> c = CHR 0x09"
  shows "current (tokenize_step s c) = []"
    and "words (tokenize_step s c)
           = (if current s \<noteq> [] then words s @ [current s] else words s)"
  using assms by (auto simp: tokenize_step_def)

lemma tokenize_trailing_whitespace:
  assumes "inQuote (tokenize_scan tok_init pre) = None"
    and "\<not> escaped (tokenize_scan tok_init pre)"
  shows "tokenize (pre @ '' '') = tokenize (pre @ [CHR 0x09]) @ [[]]"
    and "[] \<notin> set (tokenize (pre @ [CHR 0x09]))"
proof -
  let ?s = "tokenize_scan tok_init pre"
  let ?ws = "if current ?s \<noteq> [] then words ?s @ [current ?s] else words ?s"
  have sp: "tokenize_scan tok_init (pre @ '' '') = tokenize_step ?s (CHR '' '')"
    by (simp add: tokenize_scan_append tokenize_scan_Cons tokenize_scan_Nil)
  have tb: "tokenize_scan tok_init (pre @ [CHR 0x09]) = tokenize_step ?s (CHR 0x09)"
    by (simp add: tokenize_scan_append tokenize_scan_Cons tokenize_scan_Nil)
  have a: "tokenize (pre @ '' '') = ?ws @ [[]]"
    unfolding tokenize_def sp Let_def
    using tokenize_step_whitespace[OF assms, of "CHR '' ''"]
    by (simp add: endsWith_space_def)
  have b: "tokenize (pre @ [CHR 0x09]) = ?ws"
    unfolding tokenize_def tb Let_def
    using tokenize_step_whitespace[OF assms, of "CHR 0x09"]
    by (simp add: endsWith_space_def)
  show "tokenize (pre @ '' '') = tokenize (pre @ [CHR 0x09]) @ [[]]"
    unfolding a b ..
  have "[] \<notin> set (words ?s)"
    by (rule tokenize_scan_words_nonempty) (simp add: tok_init_def)
  then show "[] \<notin> set (tokenize (pre @ [CHR 0x09]))"
    unfolding b by simp
qed

text \<open>
  Claim C7 (the line ends in an unquoted, unescaped space or tab, so one trailing empty
  word is emitted): the final test of \<open>tokenize\<close> is \<open>line.endsWith(' ')\<close>, so a
  line that ends in a tab gets no trailing empty word, while the same line ending in a
  space gets one.
\<close>

theorem tokenize_trailing_tab:
  "tokenize (''ls'' @ [CHR 0x09]) = [''ls''] \<and> tokenize (''ls'' @ '' '') = [''ls'', []]"
  by (simp add: tokenize_def tokenize_scan_def tokenize_step_def tok_init_def
      endsWith_space_def)

theorem tokenize_trailing_tab_witness:
  "tokenize (''ls'' @ [CHR 0x09]) \<noteq> tokenize (''ls'' @ '' '')"
  using tokenize_trailing_tab by simp

section \<open>Properties of the array helpers\<close>

lemma js_slice_all: "js_slice 0 (int (length xs)) xs = xs"
  by (simp add: js_slice_def)

lemma js_slice_last: 
  assumes "0 < n"
  shows "js_slice (- n) (int (length xs)) xs = drop (length xs - nat n) xs"
proof -
  have "nat (max (int (length xs) - n) 0) = length xs - nat n"
    using assms by auto
  then show ?thesis
    using assms by (simp add: js_slice_def Let_def)
qed

lemma set_js_insert: "set (js_insert cmp x ys) = insert x (set ys)"
  by (induction ys) auto

lemma set_js_sort: "set (js_sort cmp xs) = set xs"
  by (induction xs) (simp_all add: set_js_insert)

lemma length_js_insert: "length (js_insert cmp x ys) = Suc (length ys)"
  by (induction ys) auto

lemma length_js_sort: "length (js_sort cmp xs) = length xs"
  by (induction xs) (simp_all add: length_js_insert)

lemma js_insert_sorted_desc:
  fixes key :: "'a \<Rightarrow> 'k::linorder"
  assumes "\<And>a b. a \<in> set (x # ys) \<Longrightarrow> b \<in> set (x # ys) \<Longrightarrow> (cmp a b \<le> 0) = (key b \<le> key a)"
    and "sorted_wrt (\<lambda>a b. key b \<le> key a) ys"
  shows "sorted_wrt (\<lambda>a b. key b \<le> key a) (js_insert cmp x ys)"
  using assms
proof (induction ys)
  case Nil
  then show ?case by simp
next
  case (Cons y ys)
  show ?case
  proof (cases "cmp x y \<le> 0")
    case True
    then have "key y \<le> key x" using Cons.prems(1)[of x y] by simp
    then show ?thesis using True Cons.prems(2) by auto
  next
    case False
    then have xy: "key x \<le> key y" using Cons.prems(1)[of x y] by simp
    have "sorted_wrt (\<lambda>a b. key b \<le> key a) (js_insert cmp x ys)"
    proof (rule Cons.IH)
      show "(cmp a b \<le> 0) = (key b \<le> key a)" if "a \<in> set (x # ys)" "b \<in> set (x # ys)" for a b
        using that Cons.prems(1)[of a b] by auto
      show "sorted_wrt (\<lambda>a b. key b \<le> key a) ys" using Cons.prems(2) by simp
    qed
    then show ?thesis using False xy Cons.prems(2) by (auto simp: set_js_insert)
  qed
qed

lemma js_sort_sorted_desc:
  fixes key :: "'a \<Rightarrow> 'k::linorder"
  assumes "\<And>a b. a \<in> set xs \<Longrightarrow> b \<in> set xs \<Longrightarrow> (cmp a b \<le> 0) = (key b \<le> key a)"
  shows "sorted_wrt (\<lambda>a b. key b \<le> key a) (js_sort cmp xs)"
  using assms
proof (induction xs)
  case Nil
  then show ?case by simp
next
  case (Cons x xs)
  have srt: "sorted_wrt (\<lambda>a b. key b \<le> key a) (js_sort cmp xs)"
    by (rule Cons.IH) (use Cons.prems in auto)
  have "sorted_wrt (\<lambda>a b. key b \<le> key a) (js_insert cmp x (js_sort cmp xs))"
  proof (rule js_insert_sorted_desc [OF _ srt])
    show "(cmp a b \<le> 0) = (key b \<le> key a)"
      if "a \<in> set (x # js_sort cmp xs)" "b \<in> set (x # js_sort cmp xs)" for a b
      using that Cons.prems[of a b] by (auto simp: set_js_sort)
  qed
  then show ?case by simp
qed

lemma js_sort_all_equal:
  assumes "\<And>a b. a \<in> set xs \<Longrightarrow> b \<in> set xs \<Longrightarrow> cmp a b \<le> 0"
  shows "js_sort cmp xs = xs"
  using assms
proof (induction xs)
  case Nil
  then show ?case by simp
next
  case (Cons x xs)
  then have "js_sort cmp xs = xs" by simp
  then show ?case using Cons.prems by (cases xs) simp_all
qed

lemma js_insert_map:
  "js_insert cmp (f x) (map f ys) = map f (js_insert (\<lambda>a b. cmp (f a) (f b)) x ys)"
  by (induction ys) auto

lemma js_sort_map:
  "js_sort cmp (map f xs) = map f (js_sort (\<lambda>a b. cmp (f a) (f b)) xs)"
  by (induction xs) (simp_all add: js_insert_map)

lemma js_slice_map: "js_slice a b (map f xs) = map f (js_slice a b xs)"
  by (simp add: js_slice_def Let_def take_map drop_map)

lemma js_slice_0_take: "js_slice 0 b xs = take (nat (if b < 0 then int (length xs) + b else b)) xs"
  by (auto simp: js_slice_def Let_def max_def min_def)

lemma sorted_wrt_take_prefix: "sorted_wrt P xs \<Longrightarrow> sorted_wrt P (take n xs)"
  using sorted_wrt_append[of P "take n xs" "drop n xs"] by simp

lemma js_slice_0_sorted: "sorted_wrt P xs \<Longrightarrow> sorted_wrt P (js_slice 0 b xs)"
  by (simp add: js_slice_0_take sorted_wrt_take_prefix)

lemma js_slice_0_set: "set (js_slice 0 b xs) \<subseteq> set xs"
  by (simp add: js_slice_0_take set_take_subset)

lemma js_slice_0_all: "int (length xs) \<le> b \<Longrightarrow> js_slice 0 b xs = xs"
  by (simp add: js_slice_0_take)

text \<open>
  Where the comparator is the order of a key on the elements of the array, \<open>js_sort\<close> is
  the stable sort by that key.
\<close>

lemma js_insert_insort_key:
  fixes f :: "'a \<Rightarrow> 'k::linorder"
  assumes "\<And>b. b \<in> set ys \<Longrightarrow> (cmp x b \<le> 0) = (f x \<le> f b)"
  shows "js_insert cmp x ys = insort_key f x ys"
  using assms by (induction ys) simp_all

lemma js_sort_sort_key:
  fixes f :: "'a \<Rightarrow> 'k::linorder"
  assumes "\<And>a b. a \<in> set xs \<Longrightarrow> b \<in> set xs \<Longrightarrow> (cmp a b \<le> 0) = (f a \<le> f b)"
  shows "js_sort cmp xs = sort_key f xs"
  using assms
proof (induction xs)
  case Nil
  then show ?case by simp
next
  case (Cons x xs)
  have ih: "js_sort cmp xs = sort_key f xs"
    by (rule Cons.IH) (use Cons.prems in auto)
  have "js_insert cmp x (sort_key f xs) = insort_key f x (sort_key f xs)"
    by (rule js_insert_insort_key) (use Cons.prems in auto)
  then show ?case by (simp add: ih)
qed

section \<open>Properties of the history providers\<close>

lemma slice_last_Options: "slice_last (Options l d) xs = xs"
  by (simp add: slice_last_def js_slice_all)

lemma length_lt_Options: "\<not> length_lt n (Options l d)"
  by (simp add: length_lt_def)

lemma search_loop_Options: "search_loop (Options l d) q xs results = results"
  by (cases xs) (simp_all add: length_lt_Options)

lemma aish_search_loop_Options: "aish_search_loop (Options l d) q xs results seen = results"
  by (cases xs) (simp_all add: length_lt_Options)

lemma provider_search_with_options:
  "aish_search p query (Options l d) = (if query = [] then rev (history p) else [])"
  "simple_search p query (Options l d) = (if query = [] then rev (history p) else [])"
  by (simp_all add: aish_search_def simple_search_def param_limit_def slice_last_Options
      search_loop_Options aish_search_loop_Options)

lemma search_loop_length:
  "int (length results) \<le> n \<Longrightarrow> int (length (search_loop (Number n) q xs results)) \<le> n"
proof (induction xs arbitrary: results)
  case Nil
  then show ?case by simp
next
  case (Cons x xs)
  show ?case
  proof (cases "length_lt (length results) (Number n)")
    case False
    then show ?thesis using Cons.prems by simp
  next
    case True
    then have "int (length (results @ [x])) \<le> n" by (simp add: length_lt_def)
    from Cons.IH[OF this] Cons.IH[OF Cons.prems] True show ?thesis by simp
  qed
qed

lemma rev_slice_last_Number:
  assumes "0 < n"
  shows "rev (slice_last (Number n) xs) = take (nat n) (rev xs)"
  using assms by (simp add: slice_last_def js_slice_last take_rev)

lemma zsh_search_limit:
  assumes "0 < n"
  shows "int (length (zsh_search p query (Options (Some n) d))) \<le> n"
    and "zsh_search p [] (Options (Some n) d) =
           take (nat n) (rev (if d = Some False then history p else deduplicatedHistory p))"
proof -
  have len: "int (length (take (nat n) ys)) \<le> n" for ys :: "history_entry list"
    using assms by simp
  show "int (length (zsh_search p query (Options (Some n) d))) \<le> n"
    using assms search_loop_length[of "[]" n] len
    by (cases "query = []") (simp_all add: zsh_search_def rev_slice_last_Number del: length_take)
  show "zsh_search p [] (Options (Some n) d) =
           take (nat n) (rev (if d = Some False then history p else deduplicatedHistory p))"
    using assms by (cases d) (simp_all add: zsh_search_def rev_slice_last_Number)
qed

lemma simple_search_number_limit:
  assumes "0 < n"
  shows "int (length (simple_search p query (Number n))) \<le> n"
    and "simple_search p [] (Number n) = take (nat n) (rev (history p))"
proof -
  have len: "int (length (take (nat n) ys)) \<le> n" for ys :: "history_entry list"
    using assms by simp
  show "int (length (simple_search p query (Number n))) \<le> n"
    using assms search_loop_length[of "[]" n] len
    by (cases "query = []")
      (simp_all add: simple_search_def param_limit_def rev_slice_last_Number del: length_take)
  show "simple_search p [] (Number n) = take (nat n) (rev (history p))"
    using assms by (simp add: simple_search_def param_limit_def rev_slice_last_Number)
qed

text \<open>
  Claim C5 (every provider's \<open>search(query, {limit, deduplicate})\<close> returns at most
  \<open>limit\<close> entries, and the most recent \<open>min(limit, total)\<close> for the empty query):
  the owned, Bash and Fish providers declare \<open>search(query, limit)\<close> and receive the
  options object in the place of the number. \<open>-limit\<close> is then \<open>NaN\<close>, so the empty
  query returns the whole history, newest first, and \<open>results.length < limit\<close> is false,
  so every other query returns nothing. With three stored entries and \<open>limit = 2\<close> the
  owned provider returns three entries.
\<close>

theorem provider_search_options_argument:
  "aish_search p query (Options l d) = (if query = [] then rev (history p) else [])
   \<and> simple_search p query (Options l d) = (if query = [] then rev (history p) else [])
   \<and> length (aish_search
        \<lparr>kind = Aish, historyFile = ''/home/u/.aish_history'', maxResults = 50,
         history =
           [\<lparr>command = ''ls'', timestamp = Some 100, exitCode = None, cwd = None,
             duration = None, metadata = \<lparr>spread = None, source = None\<rparr>\<rparr>,
            \<lparr>command = ''pwd'', timestamp = Some 200, exitCode = None, cwd = None,
             duration = None, metadata = \<lparr>spread = None, source = None\<rparr>\<rparr>,
            \<lparr>command = ''make'', timestamp = Some 300, exitCode = None, cwd = None,
             duration = None, metadata = \<lparr>spread = None, source = None\<rparr>\<rparr>],
         loaded = True, deduplicatedHistory = [], maxEntries = 10000,
         saveCorrections = True, saveDebounceTimer = False\<rparr>
        [] (Options (Some 2) (Some True))) = 3"
  by (simp add: provider_search_with_options)

text \<open>
  The same call reaches the owned provider through \<open>HistoryManager.search\<close> whenever
  the manager is not in unified mode and no shell provider is selected.
\<close>

lemma manager_search_owned_store:
  assumes "initialized m" and "mode m \<noteq> ''unified''" and "mode m \<noteq> ''shell''"
    and "map_of (providers m) ''aish'' = Some p" and "kind p = Aish" and "loaded p"
  shows "map_sum id fst (manager_search h fs cfg m query options)
           = Inr (if query = [] then rev (history p) else [])"
proof -
  have init: "initialize h fs cfg m = m"
    using assms(1) by (simp add: initialize_def)
  have load: "loadHistory h fs False p = p"
    using assms(6) by (simp add: loadHistory_def)
  have "provider_search h fs p query (Options l d)
          = (if query = [] then rev (history p) else [], p)" for l d
    using assms(5) by (simp add: provider_search_def load provider_search_with_options)
  then show ?thesis
    using assms(2,3,4) by (simp add: manager_search_def init Let_def)
qed

section \<open>Properties of the history manager\<close>

lemma merge_loop_sorted:
  "sorted_wrt P (merged @ xs) \<Longrightarrow> sorted_wrt P (merge_loop d l xs merged seen)"
proof (induction xs arbitrary: merged seen)
  case Nil
  then show ?case by simp
next
  case (Cons item rest)
  have a: "sorted_wrt P (merged @ rest)"
    using Cons.prems by (auto simp: sorted_wrt_append)
  have b: "sorted_wrt P ((merged @ [item]) @ rest)"
    using Cons.prems by simp
  have c: "sorted_wrt P (merged @ [item])"
    using Cons.prems by (auto simp: sorted_wrt_append)
  show ?case
    using Cons.IH[OF a] Cons.IH[OF b] c by auto
qed

lemma merge_compare_truthy:
  "truthy_ts (timestamp a) \<Longrightarrow> truthy_ts (timestamp b) \<Longrightarrow>
     (merge_compare a b \<le> 0) = (the (timestamp b) \<le> the (timestamp a))"
  by (simp add: merge_compare_def)

lemma merge_compare_absent:
  "\<not> truthy_ts (timestamp a) \<or> \<not> truthy_ts (timestamp b) \<Longrightarrow> merge_compare a b = 0"
  by (auto simp: merge_compare_def)

text \<open>
  Claim C2, as stated: in the merged output every entry without a timestamp comes after
  every entry with one. It fails: the comparator returns \<open>0\<close> as soon as one of the two
  timestamps is missing, so a timestamp-less entry of the first provider (a legacy line
  of the owned store) stays in front of a timestamped entry of the second.
\<close>

theorem mergeResults_absent_timestamp_counterexample:
  "mergeResults
     [[\<lparr>command = ''make'', timestamp = None, exitCode = None, cwd = None,
        duration = None, metadata = \<lparr>spread = None, source = None\<rparr>\<rparr>],
      [\<lparr>command = ''ls'', timestamp = Some 100, exitCode = None, cwd = None,
        duration = Some 0, metadata = \<lparr>spread = None, source = Some ''zsh''\<rparr>\<rparr>]]
     True 10000
   = [\<lparr>command = ''make'', timestamp = None, exitCode = None, cwd = None,
       duration = None, metadata = \<lparr>spread = None, source = None\<rparr>\<rparr>,
      \<lparr>command = ''ls'', timestamp = Some 100, exitCode = None, cwd = None,
       duration = Some 0, metadata = \<lparr>spread = None, source = Some ''zsh''\<rparr>\<rparr>]"
  by (simp add: mergeResults_def merge_compare_def truthy_ts_def)

lemma merge_loop_subseq:
  "subseq (merge_loop d l xs merged seen) (merged @ xs)"
proof (induction xs arbitrary: merged seen)
  case Nil
  then show ?case by simp
next
  case (Cons item rest)
  have a: "subseq (merged @ rest) (merged @ item # rest)"
    by (intro list_emb_append_mono list_emb_Cons subseq_order.order_refl)
  have b: "subseq (merge_loop d l rest merged seen) (merged @ item # rest)"
    using subseq_order.order_trans[OF Cons.IH[of merged seen] a] .
  have "subseq [item] (item # rest)"
    by simp
  then have c: "subseq (merged @ [item]) (merged @ item # rest)"
    by (intro list_emb_append_mono subseq_order.order_refl)
  have d: "subseq (merge_loop d l rest (merged @ [item]) seen') (merged @ item # rest)" for seen'
    using Cons.IH[of "merged @ [item]" seen'] by simp
  show ?case
    using b c d by auto
qed

lemma merge_compare_one_timestamp:
  assumes "truthy_ts (timestamp a) \<and> truthy_ts (timestamp b) \<longrightarrow> timestamp a = timestamp b"
  shows "merge_compare a b = 0"
  using assms by (auto simp: merge_compare_def)

text \<open>
  Claim C2, amended. The merge reorders two entries only when both have a (non-zero)
  timestamp, and its comparator is a consistent order in two cases, the ones stated.
  When every merged entry has a timestamp, the output is the concatenation of the
  provider lists, stably sorted by timestamp descending, then deduplicated and truncated;
  it is in descending timestamp order. When the timestamped entries among those merged
  all carry the same timestamp (so also when there is one such entry, or none), the
  comparator reports every pair as equal and the output is the concatenation of the
  provider lists, deduplicated and truncated in that order: the output keeps the order in
  which the providers returned the entries, and a timestamp-less entry returned ahead of a
  timestamped one stays ahead of it. A merge of timestamp-less entries with entries of
  two different timestamps is not covered: there the comparator is not a consistent order
  and the language leaves the result of the sort to the engine.
\<close>

theorem mergeResults_order:
  "((\<forall>e \<in> set (concat resultArrays). truthy_ts (timestamp e)) \<longrightarrow>
      mergeResults resultArrays deduplicate limit
        = merge_loop deduplicate limit
            (sort_key (\<lambda>e. - the (timestamp e)) (concat resultArrays)) [] {}
      \<and> sorted_wrt (\<lambda>a b. the (timestamp b) \<le> the (timestamp a))
          (mergeResults resultArrays deduplicate limit))
   \<and> ((\<forall>a \<in> set (concat resultArrays). \<forall>b \<in> set (concat resultArrays).
          truthy_ts (timestamp a) \<and> truthy_ts (timestamp b) \<longrightarrow> timestamp a = timestamp b) \<longrightarrow>
        mergeResults resultArrays deduplicate limit
          = merge_loop deduplicate limit (concat resultArrays) [] {}
        \<and> subseq (mergeResults resultArrays deduplicate limit) (concat resultArrays))"
proof (intro conjI impI)
  assume all: "\<forall>e \<in> set (concat resultArrays). truthy_ts (timestamp e)"
  have "js_sort merge_compare (concat resultArrays)
      = sort_key (\<lambda>e. - the (timestamp e)) (concat resultArrays)"
    by (rule js_sort_sort_key) (use all in \<open>auto simp: merge_compare_truthy\<close>)
  then show "mergeResults resultArrays deduplicate limit
        = merge_loop deduplicate limit
            (sort_key (\<lambda>e. - the (timestamp e)) (concat resultArrays)) [] {}"
    by (simp add: mergeResults_def)
  have "sorted_wrt (\<lambda>a b. the (timestamp b) \<le> the (timestamp a))
          (js_sort merge_compare (concat resultArrays))"
    by (rule js_sort_sorted_desc) (use all in \<open>auto simp: merge_compare_truthy\<close>)
  then show "sorted_wrt (\<lambda>a b. the (timestamp b) \<le> the (timestamp a))
        (mergeResults resultArrays deduplicate limit)"
    unfolding mergeResults_def by (intro merge_loop_sorted) simp
next
  assume one: "\<forall>a \<in> set (concat resultArrays). \<forall>b \<in> set (concat resultArrays).
          truthy_ts (timestamp a) \<and> truthy_ts (timestamp b) \<longrightarrow> timestamp a = timestamp b"
  have "js_sort merge_compare (concat resultArrays) = concat resultArrays"
  proof (rule js_sort_all_equal)
    fix a b
    assume "a \<in> set (concat resultArrays)" "b \<in> set (concat resultArrays)"
    then have "merge_compare a b = 0"
      using one by (intro merge_compare_one_timestamp) blast
    then show "merge_compare a b \<le> 0" by simp
  qed
  then show eq: "mergeResults resultArrays deduplicate limit
          = merge_loop deduplicate limit (concat resultArrays) [] {}"
    by (simp add: mergeResults_def)
  show "subseq (mergeResults resultArrays deduplicate limit) (concat resultArrays)"
    unfolding eq using merge_loop_subseq[of deduplicate limit "concat resultArrays" "[]" "{}"]
    by simp
qed

theorem mergeResults_order_witness:
  "mergeResults
        [[\<lparr>command = ''ls'', timestamp = Some 50, exitCode = None, cwd = None,
           duration = None, metadata = \<lparr>spread = None, source = None\<rparr>\<rparr>],
         [\<lparr>command = ''pwd'', timestamp = Some 90, exitCode = None, cwd = None,
           duration = None, metadata = \<lparr>spread = None, source = None\<rparr>\<rparr>]]
        True 50
      = [\<lparr>command = ''pwd'', timestamp = Some 90, exitCode = None, cwd = None,
           duration = None, metadata = \<lparr>spread = None, source = None\<rparr>\<rparr>,
         \<lparr>command = ''ls'', timestamp = Some 50, exitCode = None, cwd = None,
           duration = None, metadata = \<lparr>spread = None, source = None\<rparr>\<rparr>]
   \<and> mergeResults
        [[\<lparr>command = ''make'', timestamp = None, exitCode = None, cwd = None,
           duration = None, metadata = \<lparr>spread = None, source = None\<rparr>\<rparr>],
         [\<lparr>command = ''ls'', timestamp = Some 100, exitCode = None, cwd = None,
           duration = None, metadata = \<lparr>spread = None, source = None\<rparr>\<rparr>]]
        True 50
      = [\<lparr>command = ''make'', timestamp = None, exitCode = None, cwd = None,
          duration = None, metadata = \<lparr>spread = None, source = None\<rparr>\<rparr>,
         \<lparr>command = ''ls'', timestamp = Some 100, exitCode = None, cwd = None,
          duration = None, metadata = \<lparr>spread = None, source = None\<rparr>\<rparr>]"
proof -
  let ?a = "\<lparr>command = ''ls'', timestamp = Some 50, exitCode = None, cwd = None,
           duration = None, metadata = \<lparr>spread = None, source = None\<rparr>\<rparr>"
  let ?b = "\<lparr>command = ''pwd'', timestamp = Some 90, exitCode = None, cwd = None,
           duration = None, metadata = \<lparr>spread = None, source = None\<rparr>\<rparr>"
  let ?x = "\<lparr>command = ''make'', timestamp = None, exitCode = None, cwd = None,
           duration = None, metadata = \<lparr>spread = None, source = None\<rparr>\<rparr>"
  let ?y = "\<lparr>command = ''ls'', timestamp = Some 100, exitCode = None, cwd = None,
           duration = None, metadata = \<lparr>spread = None, source = None\<rparr>\<rparr>"
  have 1: "mergeResults [[?a], [?b]] True 50 = [?b, ?a]"
    using mergeResults_order
      [where resultArrays = "[[?a], [?b]]" and deduplicate = True and limit = 50,
        THEN conjunct1]
    by (simp add: truthy_ts_def)
  have 2: "mergeResults [[?x], [?y]] True 50 = [?x, ?y]"
    using mergeResults_order
      [where resultArrays = "[[?x], [?y]]" and deduplicate = True and limit = 50,
        THEN conjunct2]
    by (simp add: truthy_ts_def)
  show ?thesis using 1 2 by (rule conjI)
qed



lemma map_of_map_set: "map_of (map_set k v xs) k' = (if k' = k then Some v else map_of xs k')"
  by (induction xs) auto

lemma map_fst_map_set:
  "map_of xs k \<noteq> None \<Longrightarrow> map fst (map_set k v xs) = map fst xs"
  by (induction xs) auto

lemma loadHistory_frame:
  "kind (loadHistory h fs force p) = kind p"
  "historyFile (loadHistory h fs force p) = historyFile p"
  "saveCorrections (loadHistory h fs force p) = saveCorrections p"
  "maxEntries (loadHistory h fs force p) = maxEntries p"
  by (auto simp: loadHistory_def deduplicateHistory_def split: option.splits provider_kind.splits)

lemma aish_add_history:
  "history (aish_add h fs now a cmd md) =
     (let hist = history (loadHistory h fs False a)
      in if (hist \<noteq> [] \<and> command (last hist) = cmd)
            \<or> (\<not> saveCorrections a \<and> md_isCorrection md)
         then hist
         else hist @
           [\<lparr>command = cmd, timestamp = Some now, exitCode = md_exitCode md,
             cwd = Some (or_str (md_cwd md) (process_cwd h)), duration = md_duration md,
             metadata = \<lparr>spread = Some md, source = Some ''aish''\<rparr>\<rparr>])"
  by (simp add: aish_add_def Let_def loadHistory_frame)

lemma aish_add_historyFile: "historyFile (aish_add h fs now a cmd md) = historyFile a"
  by (simp add: aish_add_def Let_def loadHistory_frame)

lemma saveHistory_files:
  "path \<noteq> historyFile p \<Longrightarrow> snd (saveHistory h p fs) path = fs path"
  by (simp add: saveHistory_def Let_def)

lemma save_timer_fires_files:
  "path \<noteq> historyFile p \<Longrightarrow> snd (save_timer_fires h p fs) path = fs path"
  using saveHistory_files[of path p h fs]
  by (cases "saveHistory h p fs") (auto simp: save_timer_fires_def)

lemma initialize_initialized: "initialized m \<Longrightarrow> initialize h fs cfg m = m"
  by (simp add: initialize_def)

lemma aish_add_frame:
  "historyFile (aish_add h fs now a cmd md) = historyFile a"
  "maxEntries (aish_add h fs now a cmd md) = maxEntries a"
  by (simp_all add: aish_add_def Let_def loadHistory_frame)

lemma detectAndInitializeShellHistory_aish:
  "map_of (providers (detectAndInitializeShellHistory h fs cfg m)) ''aish''
     = map_of (providers m) ''aish''"
  by (simp add: detectAndInitializeShellHistory_def Let_def map_of_map_set)

lemma initialize_aish:
  "\<not> initialized m \<Longrightarrow>
     map_of (providers (initialize h fs cfg m)) ''aish'' = Some (new_provider h cfg Aish)"
  by (simp add: initialize_def Let_def detectAndInitializeShellHistory_aish map_of_map_set)

lemma save_timer_fires_owned_file:
  assumes "saveDebounceTimer p" and "mkdir_ok h (historyFile p)" and "write_ok h (historyFile p)"
  shows "snd (save_timer_fires h p fs) (historyFile p)
     = Some (render_history h (trim_to_max (maxEntries p) (history p)))"
  using assms by (simp add: save_timer_fires_def saveHistory_def Let_def)

text \<open>
  Claim C9, the part that fails: the append to the owned store is suppressed not only
  when the command equals the store's most recent entry. With \<open>history.save_corrections\<close>
  set to \<open>false\<close>, \<open>add\<close> of a command marked as a correction appends nothing, although
  the command (\<open>pwd\<close>) differs from the most recent entry (\<open>ls\<close>).
\<close>

theorem manager_add_correction_counterexample:
  "(let e_ls = \<lparr>command = ''ls'', timestamp = Some 100, exitCode = None, cwd = None,
                 duration = None, metadata = \<lparr>spread = None, source = Some ''aish''\<rparr>\<rparr>;
        h = \<lparr>parse_history = (\<lambda>k content. []), render_history = (\<lambda>es. concat (map command es)),
              default_file = (\<lambda>k. if k = Aish then ''/home/u/.aish_history''
                                     else ''/home/u/.bash_history''),
              expandPath = (\<lambda>f. f),
              env_SHELL = Some ''/bin/bash'', process_cwd = ''/home/u'',
              mkdir_ok = (\<lambda>f. True), write_ok = (\<lambda>f. True)\<rparr>;
        cfg = \<lparr>history_mode = Some ''aish'', history_file = None,
                history_max_entries = None, history_save_corrections = Some False,
                history_search_max_results = None, history_search_deduplicate = None,
                max_results = None, shell_default = None, completion_enabled = None,
                completion_history_suggestions = None, completion_fuzzy_search = None,
                completion_max_suggestions = None, completion_cache_ttl = None\<rparr>;
        owned = (new_provider h cfg Aish)\<lparr>history := [e_ls], loaded := True\<rparr>;
        m = \<lparr>mode = ''aish'', providers = [(''aish'', owned)],
              currentShell = None, initialized = True\<rparr>;
        md = \<lparr>md_exitCode = Some 0, md_cwd = None, md_duration = None,
               md_isCorrection = True\<rparr>
    in map_option history
         (map_of (providers (manager_add h Map.empty cfg 200 m ''pwd'' md)) ''aish'')
       = Some [e_ls])"
  by (simp add: Let_def manager_add_def initialize_def aish_add_def loadHistory_def
      new_provider_def)

text \<open>
  Claim C9, as the code has it. Let \<open>a\<close> be the owned provider (the entry \<open>aish\<close> of the
  provider map) once the manager is initialized. \<open>HistoryManager.add\<close> replaces it by the
  result of the owned provider's \<open>add\<close>, whose history is the loaded history, left as it is
  when the command equals its most recent entry, and also when the command is marked as
  a correction while corrections are not saved; in every other case it is the loaded
  history followed by exactly one new entry, which carries the command, the clock reading
  and the metadata. Every other entry of the provider map (a shell-native provider with
  its in-memory lists) is the one present after initialization, and the map keeps its
  keys and their order. The save that \<open>add\<close> schedules writes no file but the owned
  history file, so the backing file of a shell-native provider is unchanged provided it is
  another path than the owned history file (\<open>history.file\<close> can be configured to any
  path); when that save runs and the directory and the file can be written, the owned
  file holds the owned history. Initialization changes nothing once the manager is
  initialized, and the first initialization creates the owned provider.
\<close>

theorem manager_add_owned_store_only:
  assumes "map_of (providers (initialize h fs cfg m)) ''aish'' = Some a"
  shows "map_of (providers (manager_add h fs cfg now m cmd md)) ''aish''
           = Some (aish_add h fs now a cmd md)
         \<and> history (aish_add h fs now a cmd md)
           = (if (history (loadHistory h fs False a) \<noteq> []
                   \<and> command (last (history (loadHistory h fs False a))) = cmd)
                 \<or> (\<not> saveCorrections a \<and> md_isCorrection md)
              then history (loadHistory h fs False a)
              else history (loadHistory h fs False a) @
                [\<lparr>command = cmd, timestamp = Some now, exitCode = md_exitCode md,
                  cwd = Some (or_str (md_cwd md) (process_cwd h)), duration = md_duration md,
                  metadata = \<lparr>spread = Some md, source = Some ''aish''\<rparr>\<rparr>])
         \<and> (\<forall>name. name \<noteq> ''aish'' \<longrightarrow>
               map_of (providers (manager_add h fs cfg now m cmd md)) name
                 = map_of (providers (initialize h fs cfg m)) name)
         \<and> map fst (providers (manager_add h fs cfg now m cmd md))
             = map fst (providers (initialize h fs cfg m))
         \<and> (\<forall>path. path \<noteq> historyFile a \<longrightarrow>
               snd (save_timer_fires h (aish_add h fs now a cmd md) fs) path = fs path)
         \<and> (\<forall>name p. name \<noteq> ''aish''
                 \<and> map_of (providers (initialize h fs cfg m)) name = Some p
                 \<and> historyFile p \<noteq> historyFile a \<longrightarrow>
               snd (save_timer_fires h (aish_add h fs now a cmd md) fs) (historyFile p)
                 = fs (historyFile p))
         \<and> (saveDebounceTimer (aish_add h fs now a cmd md)
               \<and> mkdir_ok h (historyFile a) \<and> write_ok h (historyFile a) \<longrightarrow>
             snd (save_timer_fires h (aish_add h fs now a cmd md) fs) (historyFile a)
               = Some (render_history h
                   (trim_to_max (maxEntries a) (history (aish_add h fs now a cmd md)))))
         \<and> (initialized m \<longrightarrow> initialize h fs cfg m = m)
         \<and> (\<not> initialized m \<longrightarrow> a = new_provider h cfg Aish)"
proof -
  have others: "map_of (providers (manager_add h fs cfg now m cmd md)) name
         = map_of (providers (initialize h fs cfg m)) name" if "name \<noteq> ''aish''" for name
    using that by (simp add: manager_add_def Let_def map_of_map_set split: option.splits)
  have owned: "map_of (providers (manager_add h fs cfg now m cmd md)) ''aish''
           = Some (aish_add h fs now a cmd md)"
    "map fst (providers (manager_add h fs cfg now m cmd md))
             = map fst (providers (initialize h fs cfg m))"
    using assms by (simp_all add: manager_add_def Let_def map_of_map_set map_fst_map_set)
  have hist: "history (aish_add h fs now a cmd md)
           = (if (history (loadHistory h fs False a) \<noteq> []
                   \<and> command (last (history (loadHistory h fs False a))) = cmd)
                 \<or> (\<not> saveCorrections a \<and> md_isCorrection md)
              then history (loadHistory h fs False a)
              else history (loadHistory h fs False a) @
                [\<lparr>command = cmd, timestamp = Some now, exitCode = md_exitCode md,
                  cwd = Some (or_str (md_cwd md) (process_cwd h)), duration = md_duration md,
                  metadata = \<lparr>spread = Some md, source = Some ''aish''\<rparr>\<rparr>])"
    using aish_add_history[of h fs now a cmd md] by (simp only: Let_def)
  have files: "snd (save_timer_fires h (aish_add h fs now a cmd md) fs) path = fs path"
    if "path \<noteq> historyFile a" for path
    using that by (simp add: save_timer_fires_files aish_add_frame)
  have saved: "snd (save_timer_fires h (aish_add h fs now a cmd md) fs) (historyFile a)
               = Some (render_history h
                   (trim_to_max (maxEntries a) (history (aish_add h fs now a cmd md))))"
    if "saveDebounceTimer (aish_add h fs now a cmd md)
               \<and> mkdir_ok h (historyFile a) \<and> write_ok h (historyFile a)"
    using save_timer_fires_owned_file[of "aish_add h fs now a cmd md" h fs] that
    by (simp add: aish_add_frame)
  have fresh: "a = new_provider h cfg Aish" if "\<not> initialized m"
    using initialize_aish[OF that, of h fs cfg] assms by simp
  show ?thesis
  proof (intro conjI allI impI)
    show "map_of (providers (manager_add h fs cfg now m cmd md)) ''aish''
           = Some (aish_add h fs now a cmd md)"
      by (rule owned(1))
    show "map fst (providers (manager_add h fs cfg now m cmd md))
             = map fst (providers (initialize h fs cfg m))"
      by (rule owned(2))
    show "history (aish_add h fs now a cmd md)
           = (if (history (loadHistory h fs False a) \<noteq> []
                   \<and> command (last (history (loadHistory h fs False a))) = cmd)
                 \<or> (\<not> saveCorrections a \<and> md_isCorrection md)
              then history (loadHistory h fs False a)
              else history (loadHistory h fs False a) @
                [\<lparr>command = cmd, timestamp = Some now, exitCode = md_exitCode md,
                  cwd = Some (or_str (md_cwd md) (process_cwd h)), duration = md_duration md,
                  metadata = \<lparr>spread = Some md, source = Some ''aish''\<rparr>\<rparr>])"
      by (rule hist)
    show "map_of (providers (manager_add h fs cfg now m cmd md)) name
         = map_of (providers (initialize h fs cfg m)) name" if "name \<noteq> ''aish''" for name
      using that by (rule others)
    show "snd (save_timer_fires h (aish_add h fs now a cmd md) fs) path = fs path"
      if "path \<noteq> historyFile a" for path
      using that by (rule files)
    show "snd (save_timer_fires h (aish_add h fs now a cmd md) fs) (historyFile p)
                 = fs (historyFile p)"
      if "name \<noteq> ''aish''
                 \<and> map_of (providers (initialize h fs cfg m)) name = Some p
                 \<and> historyFile p \<noteq> historyFile a" for name p
      using that by (intro files) simp
    show "snd (save_timer_fires h (aish_add h fs now a cmd md) fs) (historyFile a)
               = Some (render_history h
                   (trim_to_max (maxEntries a) (history (aish_add h fs now a cmd md))))"
      if "saveDebounceTimer (aish_add h fs now a cmd md)
               \<and> mkdir_ok h (historyFile a) \<and> write_ok h (historyFile a)"
      using that by (rule saved)
    show "initialize h fs cfg m = m" if "initialized m"
      using that by (rule initialize_initialized)
    show "a = new_provider h cfg Aish" if "\<not> initialized m"
      using that by (rule fresh)
  qed
qed

theorem manager_add_owned_store_only_witness:
  "(let e_ls = \<lparr>command = ''ls'', timestamp = Some 100, exitCode = None, cwd = None,
                 duration = None, metadata = \<lparr>spread = None, source = Some ''aish''\<rparr>\<rparr>;
        e_make = \<lparr>command = ''make'', timestamp = None, exitCode = None, cwd = None,
                   duration = None, metadata = \<lparr>spread = None, source = Some ''bash''\<rparr>\<rparr>;
        owned = \<lparr>kind = Aish, historyFile = ''/home/u/.aish_history'', maxResults = 50,
                  history = [e_ls], loaded = True, deduplicatedHistory = [],
                  maxEntries = 10000, saveCorrections = True, saveDebounceTimer = False\<rparr>;
        shell = \<lparr>kind = Bash, historyFile = ''/home/u/.bash_history'', maxResults = 50,
                  history = [e_make], loaded = True, deduplicatedHistory = [],
                  maxEntries = 10000, saveCorrections = True, saveDebounceTimer = False\<rparr>;
        m = \<lparr>mode = ''unified'', providers = [(''aish'', owned), (''bash'', shell)],
              currentShell = Some ''bash'', initialized = True\<rparr>;
        h = \<lparr>parse_history = (\<lambda>k content. []), render_history = (\<lambda>es. concat (map command es)),
              default_file = (\<lambda>k. ''/home/u/.bash_history''), expandPath = (\<lambda>f. f),
              env_SHELL = Some ''/bin/bash'', process_cwd = ''/home/u'',
              mkdir_ok = (\<lambda>f. True), write_ok = (\<lambda>f. True)\<rparr>;
        fs = [''/home/u/.bash_history'' \<mapsto> ''make''];
        cfg = \<lparr>history_mode = Some ''unified'', history_file = None,
                history_max_entries = None, history_save_corrections = None,
                history_search_max_results = None, history_search_deduplicate = None,
                max_results = None, shell_default = None, completion_enabled = None,
                completion_history_suggestions = None, completion_fuzzy_search = None,
                completion_max_suggestions = None, completion_cache_ttl = None\<rparr>;
        md = \<lparr>md_exitCode = Some 0, md_cwd = None, md_duration = None,
               md_isCorrection = False\<rparr>
    in map_option history (map_of (providers (manager_add h fs cfg 200 m ''pwd'' md)) ''aish'')
         = Some [e_ls,
                 \<lparr>command = ''pwd'', timestamp = Some 200, exitCode = Some 0,
                  cwd = Some ''/home/u'', duration = None,
                  metadata = \<lparr>spread = Some md, source = Some ''aish''\<rparr>\<rparr>]
       \<and> map_option history (map_of (providers (manager_add h fs cfg 200 m ''ls'' md)) ''aish'')
         = Some [e_ls]
       \<and> map_of (providers (manager_add h fs cfg 200 m ''pwd'' md)) ''bash'' = Some shell
       \<and> snd (save_timer_fires h (aish_add h fs 200 owned ''pwd'' md) fs)
             ''/home/u/.bash_history'' = Some ''make''
       \<and> snd (save_timer_fires h (aish_add h fs 200 owned ''pwd'' md) fs)
             ''/home/u/.aish_history'' = Some ''lspwd'')"
proof -
  let ?e_ls = "\<lparr>command = ''ls'', timestamp = Some 100, exitCode = None, cwd = None,
                 duration = None, metadata = \<lparr>spread = None, source = Some ''aish''\<rparr>\<rparr>"
  let ?e_make = "\<lparr>command = ''make'', timestamp = None, exitCode = None, cwd = None,
                   duration = None, metadata = \<lparr>spread = None, source = Some ''bash''\<rparr>\<rparr>"
  let ?owned = "\<lparr>kind = Aish, historyFile = ''/home/u/.aish_history'', maxResults = 50,
                  history = [?e_ls], loaded = True, deduplicatedHistory = [],
                  maxEntries = 10000, saveCorrections = True, saveDebounceTimer = False\<rparr>"
  let ?shell = "\<lparr>kind = Bash, historyFile = ''/home/u/.bash_history'', maxResults = 50,
                  history = [?e_make], loaded = True, deduplicatedHistory = [],
                  maxEntries = 10000, saveCorrections = True, saveDebounceTimer = False\<rparr>"
  let ?m = "\<lparr>mode = ''unified'', providers = [(''aish'', ?owned), (''bash'', ?shell)],
              currentShell = Some ''bash'', initialized = True\<rparr>"
  let ?h = "\<lparr>parse_history = (\<lambda>k content. []), render_history = (\<lambda>es. concat (map command es)),
              default_file = (\<lambda>k. ''/home/u/.bash_history''), expandPath = (\<lambda>f. f),
              env_SHELL = Some ''/bin/bash'', process_cwd = ''/home/u'',
              mkdir_ok = (\<lambda>f. True), write_ok = (\<lambda>f. True)\<rparr>"
  let ?fs = "[''/home/u/.bash_history'' \<mapsto> ''make'']"
  let ?cfg = "\<lparr>history_mode = Some ''unified'', history_file = None,
                history_max_entries = None, history_save_corrections = None,
                history_search_max_results = None, history_search_deduplicate = None,
                max_results = None, shell_default = None, completion_enabled = None,
                completion_history_suggestions = None, completion_fuzzy_search = None,
                completion_max_suggestions = None, completion_cache_ttl = None\<rparr>"
  let ?md = "\<lparr>md_exitCode = Some 0, md_cwd = None, md_duration = None,
               md_isCorrection = False\<rparr>"
  have init: "initialize ?h ?fs ?cfg ?m = ?m"
    by (simp add: initialize_def)
  have owned: "map_of (providers (initialize ?h ?fs ?cfg ?m)) ''aish'' = Some ?owned"
    unfolding init by simp
  have load: "loadHistory ?h ?fs False ?owned = ?owned"
    by (simp add: loadHistory_def)
  note pwd = manager_add_owned_store_only
    [OF owned, where now = 200 and cmd = "''pwd''" and md = ?md]
  note ls = manager_add_owned_store_only
    [OF owned, where now = 200 and cmd = "''ls''" and md = ?md]
  have hp: "history (aish_add ?h ?fs 200 ?owned ''pwd'' ?md)
      = [?e_ls, \<lparr>command = ''pwd'', timestamp = Some 200, exitCode = Some 0,
                  cwd = Some ''/home/u'', duration = None,
                  metadata = \<lparr>spread = Some ?md, source = Some ''aish''\<rparr>\<rparr>]"
    using pwd [THEN conjunct2, THEN conjunct1] unfolding load by (simp add: or_str_def)
  have one: "map_option history
        (map_of (providers (manager_add ?h ?fs ?cfg 200 ?m ''pwd'' ?md)) ''aish'')
      = Some [?e_ls, \<lparr>command = ''pwd'', timestamp = Some 200, exitCode = Some 0,
                  cwd = Some ''/home/u'', duration = None,
                  metadata = \<lparr>spread = Some ?md, source = Some ''aish''\<rparr>\<rparr>]"
    using pwd [THEN conjunct1] hp by simp
  have hl: "history (aish_add ?h ?fs 200 ?owned ''ls'' ?md) = [?e_ls]"
    using ls [THEN conjunct2, THEN conjunct1] unfolding load by simp
  have two: "map_option history
        (map_of (providers (manager_add ?h ?fs ?cfg 200 ?m ''ls'' ?md)) ''aish'')
      = Some [?e_ls]"
    using ls [THEN conjunct1] hl by simp
  have "map_of (providers (manager_add ?h ?fs ?cfg 200 ?m ''pwd'' ?md)) ''bash''
      = map_of (providers (initialize ?h ?fs ?cfg ?m)) ''bash''"
    using pwd [THEN conjunct2, THEN conjunct2, THEN conjunct1, rule_format, of "''bash''"]
    by simp
  then have three: "map_of (providers (manager_add ?h ?fs ?cfg 200 ?m ''pwd'' ?md)) ''bash''
      = Some ?shell"
    unfolding init by simp
  have four: "snd (save_timer_fires ?h (aish_add ?h ?fs 200 ?owned ''pwd'' ?md) ?fs)
      ''/home/u/.bash_history'' = Some ''make''"
    using pwd [THEN conjunct2, THEN conjunct2, THEN conjunct2, THEN conjunct2, THEN conjunct1,
        rule_format, of "''/home/u/.bash_history''"]
    by simp
  have timer: "saveDebounceTimer (aish_add ?h ?fs 200 ?owned ''pwd'' ?md)"
    by (simp add: aish_add_def Let_def load)
  have five: "snd (save_timer_fires ?h (aish_add ?h ?fs 200 ?owned ''pwd'' ?md) ?fs)
      ''/home/u/.aish_history'' = Some ''lspwd''"
    using pwd [THEN conjunct2, THEN conjunct2, THEN conjunct2, THEN conjunct2, THEN conjunct2,
        THEN conjunct2, THEN conjunct1] timer hp
    by (simp add: trim_to_max_def)
  show ?thesis
    unfolding Let_def by (intro conjI) (fact one two three four five)+
qed

section \<open>Properties of the completion manager\<close>

lemma getCompletions_cases:
  "getCompletions cfg env now_read now_write cm w ctx =
     (case cache cm (cacheKey w ctx) of
        None \<Rightarrow>
          (rankCompletions cfg env w (collectCompletions cfg env w ctx),
           cm\<lparr>cache := (cache cm)(cacheKey w ctx \<mapsto>
                \<lparr>ce_value = rankCompletions cfg env w (collectCompletions cfg env w ctx),
                 ce_timestamp = now_write\<rparr>)\<rparr>)
      | Some e \<Rightarrow>
          if now_read - ce_timestamp e < cacheTimeout cm then (ce_value e, cm)
          else
            (rankCompletions cfg env w (collectCompletions cfg env w ctx),
             cm\<lparr>cache := (cache cm)(cacheKey w ctx \<mapsto>
                  \<lparr>ce_value = rankCompletions cfg env w (collectCompletions cfg env w ctx),
                   ce_timestamp = now_write\<rparr>)\<rparr>))"
  by (simp add: getCompletions_def getCached_def cacheResult_def Let_def split: option.splits)

lemma getCompletions_miss:
  assumes "getCached cm now_read (cacheKey w ctx) = None"
  shows "fst (getCompletions cfg env now_read now_write cm w ctx)
           = rankCompletions cfg env w (collectCompletions cfg env w ctx)"
  using assms by (simp add: getCompletions_def cacheResult_def Let_def)

lemma js_trim_nonempty: "js_trim w \<noteq> [] \<Longrightarrow> w \<noteq> []"
  by (auto simp: js_trim_def)

lemma JSFuzzySearcher_search_nonempty:
  assumes "query \<noteq> []"
  shows "JSFuzzySearcher_search target_of items query limit threshold True =
     map (\<lambda>i. \<lparr>result_item = i,
               result_score = score (calculateScore query (target_of i) True),
               result_matches = matches (calculateScore query (target_of i) True)\<rparr>)
       (js_slice 0 limit
          (js_sort (\<lambda>a b. double (score (calculateScore query (target_of b) True)
                                  - score (calculateScore query (target_of a) True)))
             (filter (\<lambda>i. threshold \<le> score (calculateScore query (target_of i) True)) items)))"
  using assms
  by (simp add: JSFuzzySearcher_search_def search_with_def Let_def js_sort_map js_slice_map)

lemma applyFuzzySearch_js:
  assumes "fzf env = None" and "w \<noteq> []"
  shows "applyFuzzySearch cfg env cands w =
     map (\<lambda>c. c\<lparr>c_score := Some (score (calculateScore w (c_text c) True)),
                c_matches := Some (matches (calculateScore w (c_text c) True))\<rparr>)
       (js_slice 0 (or_int (completion_max_suggestions cfg) 10)
          (js_sort (\<lambda>a b. double (score (calculateScore w (c_text b) True)
                                  - score (calculateScore w (c_text a) True)))
             (filter (\<lambda>c. double (3 / 10) \<le> score (calculateScore w (c_text c) True)) cands)))"
  using assms
  by (simp add: applyFuzzySearch_def Let_def JSFuzzySearcher_search_nonempty o_def)

lemma score_compare_sign:
  fixes x y :: rat
  shows "(double (y - x) \<le> 0) = (- x \<le> - y)"
  by (simp add: double_le_0_iff)

text \<open>
  Claim C3, as stated: with fuzzy ranking enabled and a non-empty current word, every
  candidate whose text scores above zero is in the returned list. It fails: the search
  is called with \<open>limit = max_suggestions || 10\<close> and returns \<open>results.slice(0, limit)\<close>.
  With the default configuration and eleven candidates that all start with the query
  (score \<open>0.9\<close> each), only the first ten are returned.
\<close>

theorem getCompletions_fuzzy_limit_counterexample:
  "(let cfg = \<lparr>history_mode = None, history_file = None,
        history_max_entries = None, history_save_corrections = None,
        history_search_max_results = None, history_search_deduplicate = None,
        max_results = None, shell_default = None, completion_enabled = None,
        completion_history_suggestions = None, completion_fuzzy_search = Some True,
        completion_max_suggestions = None, completion_cache_ttl = None\<rparr>;
        texts = [''a0'', ''a1'', ''a2'', ''a3'', ''a4'', ''a5'', ''a6'', ''a7'', ''a8'', ''a9'',
                 ''ab''];
        env = \<lparr>backend = (\<lambda>w sc. map (\<lambda>t. \<lparr>c_text = t, c_display = t, c_description = [],
                           c_type = ''command'', c_priority = 5, c_metadata = BackendMeta [],
                           c_score = None, c_matches = None\<rparr>) texts),
                history_search = (\<lambda>q opts. []),
                formatTimestamp = (\<lambda>t. []),
                localeCompare = (\<lambda>a b. 0),
                fzf = None\<rparr>;
        ctx = \<lparr>ctx_command = Some ''git'', ctx_position = Some 1, ctx_cwd = Some ''/tmp''\<rparr>;
        out = fst (getCompletions cfg env 1000 1001 (new_completion_manager cfg) ''a'' ctx)
    in list_all (\<lambda>t. 0 < score (calculateScore ''a'' t True)) texts
       \<and> map c_text out
           = [''a0'', ''a1'', ''a2'', ''a3'', ''a4'', ''a5'', ''a6'', ''a7'', ''a8'', ''a9''])"
  by code_simp

text \<open>
  Claim C3, amended: when fuzzy ranking is enabled, the current word is not blank, the
  JavaScript searcher is the one in use and the request is not served from the cache,
  \<open>getCompletions\<close> returns the candidates whose fuzzy score against the query reaches
  the threshold \<open>0.3\<close>, each annotated with its score and matches, stably sorted by score
  descending and cut to the first \<open>max_suggestions\<close> (default 10). The comparator
  \<open>b.score - a.score\<close> has the sign of the exact difference, so the sort is the stable
  sort by descending score. The list is sorted by score descending and holds only
  candidates that reach the threshold, which score above zero; for a query of fewer than
  \<open>2^51\<close> characters the candidates that reach the threshold are exactly those that score
  above zero; and the list holds every candidate that reaches the threshold when at most
  \<open>max_suggestions\<close> of them do.
\<close>

theorem getCompletions_fuzzy_ranking:
  assumes "completion_fuzzy_search cfg = Some True" and "js_trim w \<noteq> []"
    and "fzf env = None" and "getCached cm now_read (cacheKey w ctx) = None"
  shows "(let cands = collectCompletions cfg env w ctx;
              limit = or_int (completion_max_suggestions cfg) 10;
              sc = (\<lambda>c :: completion. score (calculateScore w (c_text c) True));
              annotate = (\<lambda>c :: completion. c\<lparr>c_score := Some (sc c),
                                  c_matches := Some (matches (calculateScore w (c_text c) True))\<rparr>);
              kept = filter (\<lambda>c. double (3 / 10) \<le> sc c) cands;
              out = fst (getCompletions cfg env now_read now_write cm w ctx)
          in out = map annotate
                     (js_slice 0 limit (js_sort (\<lambda>a b. double (sc b - sc a)) kept))
             \<and> out = map annotate (js_slice 0 limit (sort_key (\<lambda>c. - sc c) kept))
             \<and> sorted_wrt (\<lambda>a b. the (c_score b) \<le> the (c_score a)) out
             \<and> (\<forall>r \<in> set out. double (3 / 10) \<le> the (c_score r) \<and> 0 < the (c_score r))
             \<and> (length w < 2 ^ 51 \<longrightarrow> kept = filter (\<lambda>c. 0 < sc c) cands)
             \<and> (int (length kept) \<le> limit \<longrightarrow>
                  (\<forall>c \<in> set cands. double (3 / 10) \<le> sc c \<longrightarrow> annotate c \<in> set out)))"
proof -
  define cands where "cands = collectCompletions cfg env w ctx"
  define limit where "limit = or_int (completion_max_suggestions cfg) 10"
  define sc where "sc = (\<lambda>c :: completion. score (calculateScore w (c_text c) True))"
  define annotate where "annotate = (\<lambda>c :: completion. c\<lparr>c_score := Some (sc c),
                                  c_matches := Some (matches (calculateScore w (c_text c) True))\<rparr>)"
  define out where "out = fst (getCompletions cfg env now_read now_write cm w ctx)"
  define kept where "kept = filter (\<lambda>c. double (3 / 10) \<le> sc c) cands"
  define ranked where "ranked = js_sort (\<lambda>a b. double (sc b - sc a)) kept"
  have w: "w \<noteq> []" using assms(2) by (rule js_trim_nonempty)
  have "out = applyFuzzySearch cfg env cands w"
    unfolding out_def cands_def
    using assms(1,2) by (simp add: getCompletions_miss [OF assms(4)] rankCompletions_def)
  then have out: "out = map annotate (js_slice 0 limit ranked)"
    unfolding applyFuzzySearch_js [OF assms(3) w] annotate_def sc_def limit_def ranked_def
      kept_def .
  have stable: "ranked = sort_key (\<lambda>c. - sc c) kept"
    unfolding ranked_def by (rule js_sort_sort_key) (rule score_compare_sign)
  have score_annotate: "the (c_score (annotate c)) = sc c" for c
    by (simp add: annotate_def)
  have "sorted_wrt (\<lambda>a b. sc b \<le> sc a) ranked"
    unfolding ranked_def by (rule js_sort_sorted_desc) (simp add: double_le_0_iff)
  then have "sorted_wrt (\<lambda>a b. sc b \<le> sc a) (js_slice 0 limit ranked)"
    by (rule js_slice_0_sorted)
  then have sorted: "sorted_wrt (\<lambda>a b. the (c_score b) \<le> the (c_score a)) out"
    unfolding out by (simp add: sorted_wrt_map score_annotate)
  have sub: "set (js_slice 0 limit ranked) \<subseteq> set kept"
    using js_slice_0_set[of limit ranked] by (simp add: ranked_def set_js_sort)
  have pos: "double (3 / 10) \<le> the (c_score r) \<and> 0 < the (c_score r)" if "r \<in> set out" for r
  proof -
    from that obtain c where c: "c \<in> set (js_slice 0 limit ranked)" "r = annotate c"
      unfolding out by auto
    with sub have "double (3 / 10) \<le> sc c" by (auto simp: kept_def)
    moreover have "(0::rat) < double (3 / 10)" by (rule literal_bounds(4))
    ultimately show ?thesis using c(2) by (simp add: score_annotate)
  qed
  have zero: "kept = filter (\<lambda>c. 0 < sc c) cands" if "length w < 2 ^ 51"
    unfolding kept_def sc_def by (simp only: calculateScore_threshold[OF that])
  have all: "annotate c \<in> set out"
    if "int (length kept) \<le> limit" "c \<in> set cands" "double (3 / 10) \<le> sc c" for c
  proof -
    have "js_slice 0 limit ranked = ranked"
      by (rule js_slice_0_all) (use that(1) in \<open>simp add: ranked_def length_js_sort\<close>)
    then have "set (js_slice 0 limit ranked) = set kept"
      by (simp add: ranked_def set_js_sort)
    then show ?thesis using that(2,3) unfolding out by (simp add: kept_def)
  qed
  have "out = map annotate (js_slice 0 limit (js_sort (\<lambda>a b. double (sc b - sc a)) kept))
        \<and> out = map annotate (js_slice 0 limit (sort_key (\<lambda>c. - sc c) kept))
        \<and> sorted_wrt (\<lambda>a b. the (c_score b) \<le> the (c_score a)) out
        \<and> (\<forall>r \<in> set out. double (3 / 10) \<le> the (c_score r) \<and> 0 < the (c_score r))
        \<and> (length w < 2 ^ 51 \<longrightarrow> kept = filter (\<lambda>c. 0 < sc c) cands)
        \<and> (int (length kept) \<le> limit \<longrightarrow>
                  (\<forall>c \<in> set cands. double (3 / 10) \<le> sc c \<longrightarrow> annotate c \<in> set out))"
  proof (intro conjI ballI impI)
    show "out = map annotate (js_slice 0 limit (js_sort (\<lambda>a b. double (sc b - sc a)) kept))"
      using out unfolding ranked_def .
    show "out = map annotate (js_slice 0 limit (sort_key (\<lambda>c. - sc c) kept))"
      using out unfolding stable .
    show "sorted_wrt (\<lambda>a b. the (c_score b) \<le> the (c_score a)) out" by (rule sorted)
    show "double (3 / 10) \<le> the (c_score r)" if "r \<in> set out" for r
      using pos[OF that] by simp
    show "0 < the (c_score r)" if "r \<in> set out" for r
      using pos[OF that] by simp
    show "kept = filter (\<lambda>c. 0 < sc c) cands" if "length w < 2 ^ 51"
      using that by (rule zero)
    show "annotate c \<in> set out"
      if "int (length kept) \<le> limit" "c \<in> set cands" "double (3 / 10) \<le> sc c" for c
      using that by (rule all)
  qed
  then show ?thesis
    unfolding Let_def cands_def limit_def sc_def annotate_def out_def kept_def .
qed

theorem getCompletions_fuzzy_ranking_witness:
  "(let cfg = \<lparr>history_mode = None, history_file = None,
        history_max_entries = None, history_save_corrections = None,
        history_search_max_results = None, history_search_deduplicate = None,
        max_results = None, shell_default = None, completion_enabled = None,
        completion_history_suggestions = None, completion_fuzzy_search = Some True,
        completion_max_suggestions = None, completion_cache_ttl = None\<rparr>;
        env = \<lparr>backend = (\<lambda>w sc. map (\<lambda>t. \<lparr>c_text = t, c_display = t, c_description = [],
                 c_type = ''command'', c_priority = 5, c_metadata = BackendMeta [],
                 c_score = None, c_matches = None\<rparr>) [''xyz'', ''get'', ''git'']),
        history_search = (\<lambda>q opts. []),
        formatTimestamp = (\<lambda>t. []),
        localeCompare = (\<lambda>a b. 0),
        fzf = None\<rparr>;
        ctx = \<lparr>ctx_command = Some ''git'', ctx_position = Some 1, ctx_cwd = Some ''/tmp''\<rparr>;
        out = fst (getCompletions cfg env 1000 1001 (new_completion_manager cfg) ''gt'' ctx)
    in sorted_wrt (\<lambda>a b. the (c_score b) \<le> the (c_score a)) out
       \<and> (\<lparr>c_text = ''git'', c_display = ''git'', c_description = [],
        c_type = ''command'', c_priority = 5, c_metadata = BackendMeta [],
        c_score = None, c_matches = None\<rparr>)\<lparr>c_score := Some (score (calculateScore ''gt'' ''git'' True)),
                 c_matches := Some (matches (calculateScore ''gt'' ''git'' True))\<rparr> \<in> set out
       \<and> filter (\<lambda>c. double (3 / 10) \<le> score (calculateScore ''gt'' (c_text c) True))
            (collectCompletions cfg env ''gt'' ctx)
          = filter (\<lambda>c. 0 < score (calculateScore ''gt'' (c_text c) True))
              (collectCompletions cfg env ''gt'' ctx))"
proof -
  let ?cfg = "\<lparr>history_mode = None, history_file = None,
        history_max_entries = None, history_save_corrections = None,
        history_search_max_results = None, history_search_deduplicate = None,
        max_results = None, shell_default = None, completion_enabled = None,
        completion_history_suggestions = None, completion_fuzzy_search = Some True,
        completion_max_suggestions = None, completion_cache_ttl = None\<rparr>"
  let ?env = "\<lparr>backend = (\<lambda>w sc. map (\<lambda>t. \<lparr>c_text = t, c_display = t, c_description = [],
                 c_type = ''command'', c_priority = 5, c_metadata = BackendMeta [],
                 c_score = None, c_matches = None\<rparr>) [''xyz'', ''get'', ''git'']),
        history_search = (\<lambda>q opts. []),
        formatTimestamp = (\<lambda>t. []),
        localeCompare = (\<lambda>a b. 0),
        fzf = None\<rparr>"
  let ?ctx = "\<lparr>ctx_command = Some ''git'', ctx_position = Some 1, ctx_cwd = Some ''/tmp''\<rparr>"
  let ?git = "\<lparr>c_text = ''git'', c_display = ''git'', c_description = [],
        c_type = ''command'', c_priority = 5, c_metadata = BackendMeta [],
        c_score = None, c_matches = None\<rparr>"
  have h1: "completion_fuzzy_search ?cfg = Some True" by simp
  have h2: "js_trim ''gt'' \<noteq> []" by (simp add: js_trim_def is_js_space_def)
  have h3: "fzf ?env = None" by simp
  have h4: "getCached (new_completion_manager ?cfg) 1000 (cacheKey ''gt'' ?ctx) = None"
    by (simp add: getCached_def new_completion_manager_def)
  note t = getCompletions_fuzzy_ranking [OF h1 h2 h3 h4, where now_write = 1001, unfolded Let_def]
  have few: "int (length (filter (\<lambda>c. double (3 / 10) \<le> score (calculateScore ''gt'' (c_text c) True))
                 (collectCompletions ?cfg ?env ''gt'' ?ctx)))
             \<le> or_int (completion_max_suggestions ?cfg) 10"
    by code_simp
  have mem: "?git \<in> set (collectCompletions ?cfg ?env ''gt'' ?ctx)"
    by code_simp
  have pos: "double (3 / 10) \<le> score (calculateScore ''gt'' (c_text ?git) True)"
    by code_simp
  have short: "length ''gt'' < 2 ^ 51" by simp
  have srt: "sorted_wrt (\<lambda>a b. the (c_score b) \<le> the (c_score a))
      (fst (getCompletions ?cfg ?env 1000 1001 (new_completion_manager ?cfg) ''gt'' ?ctx))"
    by (rule t [THEN conjunct2, THEN conjunct2, THEN conjunct1])
  have inc: "?git\<lparr>c_score := Some (score (calculateScore ''gt'' (c_text ?git) True)),
        c_matches := Some (matches (calculateScore ''gt'' (c_text ?git) True))\<rparr>
      \<in> set (fst (getCompletions ?cfg ?env 1000 1001 (new_completion_manager ?cfg) ''gt'' ?ctx))"
    by (rule t [THEN conjunct2, THEN conjunct2, THEN conjunct2, THEN conjunct2, THEN conjunct2,
          rule_format, OF few mem pos])
  have zero: "filter (\<lambda>c. double (3 / 10) \<le> score (calculateScore ''gt'' (c_text c) True))
            (collectCompletions ?cfg ?env ''gt'' ?ctx)
          = filter (\<lambda>c. 0 < score (calculateScore ''gt'' (c_text c) True))
              (collectCompletions ?cfg ?env ''gt'' ?ctx)"
    by (rule t [THEN conjunct2, THEN conjunct2, THEN conjunct2, THEN conjunct2, THEN conjunct1,
          rule_format, OF short])
  from inc have inc': "?git\<lparr>c_score := Some (score (calculateScore ''gt'' ''git'' True)),
        c_matches := Some (matches (calculateScore ''gt'' ''git'' True))\<rparr>
      \<in> set (fst (getCompletions ?cfg ?env 1000 1001 (new_completion_manager ?cfg) ''gt'' ?ctx))"
    by simp
  show ?thesis
    unfolding Let_def by (intro conjI) (fact srt inc' zero)+
qed

lemma cacheTimeout_config:
  "cacheTimeout (new_completion_manager cfg) = or_int (completion_cache_ttl cfg) 300000"
  by (simp add: new_completion_manager_def)

text \<open>
  What the cache does with a stored entry: for a request whose key has an entry,
  \<open>getCompletions\<close> returns the stored value and leaves the manager unchanged when the
  clock reading (in milliseconds) minus the entry's timestamp is strictly below the field
  \<open>cacheTimeout\<close>; otherwise it computes the candidates anew, returns them and replaces
  the entry by the new list stamped with the later clock reading.
\<close>

lemma getCompletions_stored_entry:
  assumes "cache cm (cacheKey w ctx) = Some e"
  shows "(now_read - ce_timestamp e < cacheTimeout cm \<longrightarrow>
            getCompletions cfg env now_read now_write cm w ctx = (ce_value e, cm))
         \<and> (\<not> now_read - ce_timestamp e < cacheTimeout cm \<longrightarrow>
            getCompletions cfg env now_read now_write cm w ctx =
              (rankCompletions cfg env w (collectCompletions cfg env w ctx),
               cm\<lparr>cache := (cache cm)(cacheKey w ctx \<mapsto>
                    \<lparr>ce_value = rankCompletions cfg env w (collectCompletions cfg env w ctx),
                     ce_timestamp = now_write\<rparr>)\<rparr>))"
  using assms by (simp add: getCompletions_cases)

text \<open>
  The field \<open>cacheTimeout\<close> is \<open>cache_ttl || 300000\<close>, so a configured time-to-live of
  \<open>0\<close> is replaced by 300000 milliseconds: an entry is then served for five minutes,
  where a time-to-live of zero leaves no entry fresh.
\<close>

lemma getCompletions_cache_ttl_zero:
  "(let cfg = \<lparr>history_mode = None, history_file = None,
        history_max_entries = None, history_save_corrections = None,
        history_search_max_results = None, history_search_deduplicate = None,
        max_results = None, shell_default = None, completion_enabled = None,
        completion_history_suggestions = None, completion_fuzzy_search = None,
        completion_max_suggestions = None, completion_cache_ttl = Some 0\<rparr>;
        env = (\<lambda>name. \<lparr>backend = (\<lambda>w sc. [\<lparr>c_text = name, c_display = name, c_description = [],
                 c_type = ''command'', c_priority = 5, c_metadata = BackendMeta [],
                 c_score = None, c_matches = None\<rparr>]),
          history_search = (\<lambda>q opts. []),
          formatTimestamp = (\<lambda>t. []),
          localeCompare = (\<lambda>a b. 0),
          fzf = None\<rparr>);
        ctx = \<lparr>ctx_command = Some ''git'', ctx_position = Some 1, ctx_cwd = Some ''/tmp''\<rparr>;
        first = getCompletions cfg (env ''gimp'') 1000000 1000000 (new_completion_manager cfg)
                  ''gi'' ctx;
        second = getCompletions cfg (env ''gitk'') 1001000 1001000 (snd first) ''gi'' ctx
    in cacheTimeout (new_completion_manager cfg) = 300000
       \<and> map c_text (fst first) = [''gimp'']
       \<and> map c_text (fst second) = [''gimp''])"
  by code_simp

text \<open>
  Claim C8 at the documented configuration. The configuration schema documents
  \<open>completion.cache_ttl\<close> as the time-to-live in seconds, with default \<open>300\<close>, and the
  manager stores the number unchanged in \<open>cacheTimeout\<close>, which \<open>getCached\<close> compares
  with a difference of millisecond clock readings. With \<open>cache_ttl = 300\<close> an entry stored
  at clock reading \<open>1000000\<close> is not served to the identical request one second later
  (\<open>1001000\<close>), far inside the configured five minutes: the backend is asked again (it now
  answers \<open>gitk\<close> where the stored list holds \<open>gimp\<close>) and the entry is replaced. The same
  entry is served 299 milliseconds after it was stored and no longer after 300.
\<close>

theorem getCompletions_cache_ttl_seconds:
  "(let cfg = \<lparr>history_mode = None, history_file = None,
        history_max_entries = None, history_save_corrections = None,
        history_search_max_results = None, history_search_deduplicate = None,
        max_results = None, shell_default = None, completion_enabled = None,
        completion_history_suggestions = None, completion_fuzzy_search = None,
        completion_max_suggestions = None, completion_cache_ttl = Some 300\<rparr>;
        env = (\<lambda>name. \<lparr>backend = (\<lambda>w sc. [\<lparr>c_text = name, c_display = name, c_description = [],
                 c_type = ''command'', c_priority = 5, c_metadata = BackendMeta [],
                 c_score = None, c_matches = None\<rparr>]),
          history_search = (\<lambda>q opts. []),
          formatTimestamp = (\<lambda>t. []),
          localeCompare = (\<lambda>a b. 0),
          fzf = None\<rparr>);
        ctx = \<lparr>ctx_command = Some ''git'', ctx_position = Some 1, ctx_cwd = Some ''/tmp''\<rparr>;
        first = getCompletions cfg (env ''gimp'') 1000000 1000000 (new_completion_manager cfg)
                  ''gi'' ctx;
        second = getCompletions cfg (env ''gitk'') 1001000 1001000 (snd first) ''gi'' ctx
    in cacheTimeout (new_completion_manager cfg) = 300
       \<and> map c_text (fst first) = [''gimp'']
       \<and> map_option ce_timestamp (cache (snd first) (cacheKey ''gi'' ctx)) = Some 1000000
       \<and> getCached (snd first) 1001000 (cacheKey ''gi'' ctx) = None
       \<and> map c_text (fst second) = [''gitk'']
       \<and> map_option ce_timestamp (cache (snd second) (cacheKey ''gi'' ctx)) = Some 1001000
       \<and> map_option (map c_text)
            (getCached (snd first) 1000299 (cacheKey ''gi'' ctx)) = Some [''gimp'']
       \<and> getCached (snd first) 1000300 (cacheKey ''gi'' ctx) = None)"
  by code_simp

text \<open>
  Claim C10, as stated, gives as example of two request tuples with the same cache key
  the current word \<open>a:b\<close> with an empty command and the current word \<open>a\<close> with
  command \<open>b\<close>. These two keys differ: the empty command still contributes its
  separator, \<open>a:b::0:/tmp\<close> against \<open>a:b:0:/tmp\<close>.
\<close>

theorem cacheKey_example_counterexample:
  "cacheKey ''a:b'' \<lparr>ctx_command = Some [], ctx_position = Some 0, ctx_cwd = Some ''/tmp''\<rparr>
     = ''a:b::0:/tmp''
   \<and> cacheKey ''a'' \<lparr>ctx_command = Some ''b'', ctx_position = Some 0, ctx_cwd = Some ''/tmp''\<rparr>
     = ''a:b:0:/tmp''
   \<and> cacheKey ''a:b'' \<lparr>ctx_command = Some [], ctx_position = Some 0, ctx_cwd = Some ''/tmp''\<rparr>
     \<noteq> cacheKey ''a'' \<lparr>ctx_command = Some ''b'', ctx_position = Some 0, ctx_cwd = Some ''/tmp''\<rparr>"
  by (simp add: cacheKey_def or_str_def)

text \<open>
  Claim C10, amended: the key is the \<open>:\<close>-joined string, so distinct request tuples can
  share a key, for example current word \<open>a:b\<close> with command \<open>c\<close> and current word
  \<open>a\<close> with command \<open>b:c\<close> (same position and directory); and when two requests
  share a key, a call for the second within the time-to-live of the entry stored by a
  call for the first returns the list computed for the first.
\<close>

theorem cacheKey_collision:
  "(''a:b'', Some ''c'') \<noteq> (''a'', Some ''b:c'')
   \<and> cacheKey ''a:b'' \<lparr>ctx_command = Some ''c'', ctx_position = pos, ctx_cwd = dir\<rparr>
       = cacheKey ''a'' \<lparr>ctx_command = Some ''b:c'', ctx_position = pos, ctx_cwd = dir\<rparr>
   \<and> (cacheKey w1 ctx1 = cacheKey w2 ctx2
        \<and> getCached cm t1 (cacheKey w1 ctx1) = None
        \<and> t2 - t1' < cacheTimeout cm \<longrightarrow>
        getCompletions cfg2 env2 t2 t2' (snd (getCompletions cfg env t1 t1' cm w1 ctx1)) w2 ctx2
          = (rankCompletions cfg env w1 (collectCompletions cfg env w1 ctx1),
             snd (getCompletions cfg env t1 t1' cm w1 ctx1)))"
proof -
  have key: "cacheKey ''a:b'' \<lparr>ctx_command = Some ''c'', ctx_position = pos, ctx_cwd = dir\<rparr>
       = cacheKey ''a'' \<lparr>ctx_command = Some ''b:c'', ctx_position = pos, ctx_cwd = dir\<rparr>"
    by (simp add: cacheKey_def or_str_def)
  have served: "getCompletions cfg2 env2 t2 t2' (snd (getCompletions cfg env t1 t1' cm w1 ctx1)) w2 ctx2
          = (rankCompletions cfg env w1 (collectCompletions cfg env w1 ctx1),
             snd (getCompletions cfg env t1 t1' cm w1 ctx1))"
    if "cacheKey w1 ctx1 = cacheKey w2 ctx2" "getCached cm t1 (cacheKey w1 ctx1) = None"
       "t2 - t1' < cacheTimeout cm"
  proof -
    have first: "getCompletions cfg env t1 t1' cm w1 ctx1 =
        (rankCompletions cfg env w1 (collectCompletions cfg env w1 ctx1),
         cm\<lparr>cache := (cache cm)(cacheKey w1 ctx1 \<mapsto>
              \<lparr>ce_value = rankCompletions cfg env w1 (collectCompletions cfg env w1 ctx1),
               ce_timestamp = t1'\<rparr>)\<rparr>)"
      using that(2) by (simp add: getCompletions_def cacheResult_def Let_def)
    show ?thesis
      unfolding first using that(1,3)
      by (simp add: getCompletions_def getCached_def Let_def)
  qed
  show ?thesis
  proof (intro conjI impI)
    show "(''a:b'', Some ''c'') \<noteq> (''a'', Some ''b:c'')" by simp
    show "cacheKey ''a:b'' \<lparr>ctx_command = Some ''c'', ctx_position = pos, ctx_cwd = dir\<rparr>
       = cacheKey ''a'' \<lparr>ctx_command = Some ''b:c'', ctx_position = pos, ctx_cwd = dir\<rparr>"
      by (rule key)
    assume a: "cacheKey w1 ctx1 = cacheKey w2 ctx2
        \<and> getCached cm t1 (cacheKey w1 ctx1) = None
        \<and> t2 - t1' < cacheTimeout cm"
    show "getCompletions cfg2 env2 t2 t2' (snd (getCompletions cfg env t1 t1' cm w1 ctx1)) w2 ctx2
          = (rankCompletions cfg env w1 (collectCompletions cfg env w1 ctx1),
             snd (getCompletions cfg env t1 t1' cm w1 ctx1))"
      by (rule served) (use a in blast)+
  qed
qed

theorem cacheKey_collision_witness:
  "(let cfg = \<lparr>history_mode = None, history_file = None,
        history_max_entries = None, history_save_corrections = None,
        history_search_max_results = None, history_search_deduplicate = None,
        max_results = None, shell_default = None, completion_enabled = None,
        completion_history_suggestions = None, completion_fuzzy_search = None,
        completion_max_suggestions = None, completion_cache_ttl = None\<rparr>;
        env = \<lparr>backend = (\<lambda>w sc. [\<lparr>c_text = w, c_display = w, c_description = [],
                 c_type = ''command'', c_priority = 5, c_metadata = BackendMeta [],
                 c_score = None, c_matches = None\<rparr>]),
        history_search = (\<lambda>q opts. []),
        formatTimestamp = (\<lambda>t. []),
        localeCompare = (\<lambda>a b. 0),
        fzf = None\<rparr>;
        ctx1 = \<lparr>ctx_command = Some ''c'', ctx_position = Some 1, ctx_cwd = Some ''/tmp''\<rparr>;
        ctx2 = \<lparr>ctx_command = Some ''b:c'', ctx_position = Some 1, ctx_cwd = Some ''/tmp''\<rparr>;
        cm = new_completion_manager cfg;
        cm1 = snd (getCompletions cfg env 1000 1001 cm ''a:b'' ctx1)
    in fst (getCompletions cfg env 2000 2001 cm1 ''a'' ctx2) = [\<lparr>c_text = ''a:b'', c_display = ''a:b'', c_description = [],
        c_type = ''command'', c_priority = 5, c_metadata = BackendMeta [],
        c_score = None, c_matches = None\<rparr>]
       \<and> fst (getCompletions cfg env 2000 2001 cm ''a'' ctx2) = [\<lparr>c_text = ''a'', c_display = ''a'', c_description = [],
        c_type = ''command'', c_priority = 5, c_metadata = BackendMeta [],
        c_score = None, c_matches = None\<rparr>])"
proof -
  let ?cfg = "\<lparr>history_mode = None, history_file = None,
        history_max_entries = None, history_save_corrections = None,
        history_search_max_results = None, history_search_deduplicate = None,
        max_results = None, shell_default = None, completion_enabled = None,
        completion_history_suggestions = None, completion_fuzzy_search = None,
        completion_max_suggestions = None, completion_cache_ttl = None\<rparr>"
  let ?env = "\<lparr>backend = (\<lambda>w sc. [\<lparr>c_text = w, c_display = w, c_description = [],
                 c_type = ''command'', c_priority = 5, c_metadata = BackendMeta [],
                 c_score = None, c_matches = None\<rparr>]),
        history_search = (\<lambda>q opts. []),
        formatTimestamp = (\<lambda>t. []),
        localeCompare = (\<lambda>a b. 0),
        fzf = None\<rparr>"
  let ?ctx1 = "\<lparr>ctx_command = Some ''c'', ctx_position = Some 1, ctx_cwd = Some ''/tmp''\<rparr>"
  let ?ctx2 = "\<lparr>ctx_command = Some ''b:c'', ctx_position = Some 1, ctx_cwd = Some ''/tmp''\<rparr>"
  let ?cm = "new_completion_manager ?cfg"
  have key: "cacheKey ''a:b'' ?ctx1 = cacheKey ''a'' ?ctx2"
    by (simp add: cacheKey_def or_str_def)
  have miss: "getCached ?cm 1000 (cacheKey ''a:b'' ?ctx1) = None"
    by (simp add: getCached_def new_completion_manager_def)
  have ttl: "(2000::int) - 1001 < cacheTimeout ?cm"
    by (simp add: new_completion_manager_def or_int_def)
  have first: "rankCompletions ?cfg ?env ''a:b'' (collectCompletions ?cfg ?env ''a:b'' ?ctx1)
                 = [\<lparr>c_text = ''a:b'', c_display = ''a:b'', c_description = [],
        c_type = ''command'', c_priority = 5, c_metadata = BackendMeta [],
        c_score = None, c_matches = None\<rparr>]"
    by (simp add: rankCompletions_def collectCompletions_def sortCompletions_def)
  have own: "fst (getCompletions ?cfg ?env 2000 2001 ?cm ''a'' ?ctx2) = [\<lparr>c_text = ''a'', c_display = ''a'', c_description = [],
        c_type = ''command'', c_priority = 5, c_metadata = BackendMeta [],
        c_score = None, c_matches = None\<rparr>]"
    by (simp add: getCompletions_def getCached_def cacheResult_def new_completion_manager_def
        rankCompletions_def collectCompletions_def sortCompletions_def Let_def)
  from cacheKey_collision
    [where ?w1.0 = "''a:b''" and ?ctx1.0 = ?ctx1 and ?w2.0 = "''a''" and ?ctx2.0 = ?ctx2
       and cm = ?cm and ?t1.0 = 1000 and t1' = 1001 and ?t2.0 = 2000 and t2' = 2001
       and cfg = ?cfg and env = ?env and ?cfg2.0 = ?cfg and ?env2.0 = ?env]
    key miss ttl
  have "getCompletions ?cfg ?env 2000 2001
          (snd (getCompletions ?cfg ?env 1000 1001 ?cm ''a:b'' ?ctx1)) ''a'' ?ctx2
        = (rankCompletions ?cfg ?env ''a:b'' (collectCompletions ?cfg ?env ''a:b'' ?ctx1),
           snd (getCompletions ?cfg ?env 1000 1001 ?cm ''a:b'' ?ctx1))"
    by blast
  then have "fst (getCompletions ?cfg ?env 2000 2001
          (snd (getCompletions ?cfg ?env 1000 1001 ?cm ''a:b'' ?ctx1)) ''a'' ?ctx2) = [\<lparr>c_text = ''a:b'', c_display = ''a:b'', c_description = [],
        c_type = ''command'', c_priority = 5, c_metadata = BackendMeta [],
        c_score = None, c_matches = None\<rparr>]"
    unfolding first by simp
  then show ?thesis
    unfolding Let_def using own by simp
qed

end
